theory Spec2Isabelle
  imports Complex_Main "HOL-Library.Word" "HOL-Library.AList"
begin

section \<open>TracesCleaner: the watermark detector and cleaner\<close>

text \<open>
  A shallow embedding of \<^verbatim>\<open>js/watermark-detector.js\<close>. A JavaScript string is a
  sequence of UTF-16 code units, and every operation of the engine works on code units
  (\<^verbatim>\<open>text[i]\<close>, regular expressions without the \<^verbatim>\<open>u\<close> flag), so a text is a list of
  16-bit words. Unpaired surrogates are ordinary elements of such a list.
\<close>

type_synonym u16 = "16 word"
type_synonym jstring = "u16 list"

text \<open>ASCII literals of the source, as code units.\<close>

definition utf16 :: "string \<Rightarrow> jstring" where
  "utf16 s = map (\<lambda>c. of_nat (of_char c)) s"

subsection \<open>The invisible character registry\<close>

datatype category =
  Formatting | ZeroWidth | Direction | Separator | Joiner | MathInvisible | Bom
  | Format | Variation | Annotation | Filler | Space | Control

record char_info =
  name :: string
  code :: string
  category :: category

definition INVISIBLE_CHARS :: "(u16 \<times> char_info) list" where
  "INVISIBLE_CHARS = [
    (0x0009, \<lparr>name = ''Tab'', code = ''U+0009'', category = Formatting\<rparr>),
    (0x000A, \<lparr>name = ''Line Feed'', code = ''U+000A'', category = Formatting\<rparr>),
    (0x000C, \<lparr>name = ''Form Feed'', code = ''U+000C'', category = Formatting\<rparr>),
    (0x000D, \<lparr>name = ''Carriage Return'', code = ''U+000D'', category = Formatting\<rparr>),
    (0x200B, \<lparr>name = ''Zero-Width Space'', code = ''U+200B'', category = ZeroWidth\<rparr>),
    (0x200C, \<lparr>name = ''Zero-Width Non-Joiner'', code = ''U+200C'', category = ZeroWidth\<rparr>),
    (0x200D, \<lparr>name = ''Zero-Width Joiner'', code = ''U+200D'', category = ZeroWidth\<rparr>),
    (0x200E, \<lparr>name = ''Left-to-Right Mark'', code = ''U+200E'', category = Direction\<rparr>),
    (0x200F, \<lparr>name = ''Right-to-Left Mark'', code = ''U+200F'', category = Direction\<rparr>),
    (0x2028, \<lparr>name = ''Line Separator'', code = ''U+2028'', category = Separator\<rparr>),
    (0x2029, \<lparr>name = ''Paragraph Separator'', code = ''U+2029'', category = Separator\<rparr>),
    (0x202A, \<lparr>name = ''Left-to-Right Embedding'', code = ''U+202A'', category = Direction\<rparr>),
    (0x202B, \<lparr>name = ''Right-to-Left Embedding'', code = ''U+202B'', category = Direction\<rparr>),
    (0x202C, \<lparr>name = ''Pop Directional Formatting'', code = ''U+202C'', category = Direction\<rparr>),
    (0x202D, \<lparr>name = ''Left-to-Right Override'', code = ''U+202D'', category = Direction\<rparr>),
    (0x202E, \<lparr>name = ''Right-to-Left Override'', code = ''U+202E'', category = Direction\<rparr>),
    (0x2060, \<lparr>name = ''Word Joiner'', code = ''U+2060'', category = Joiner\<rparr>),
    (0x2061, \<lparr>name = ''Function Application'', code = ''U+2061'', category = MathInvisible\<rparr>),
    (0x2062, \<lparr>name = ''Invisible Times'', code = ''U+2062'', category = MathInvisible\<rparr>),
    (0x2063, \<lparr>name = ''Invisible Separator'', code = ''U+2063'', category = MathInvisible\<rparr>),
    (0x2064, \<lparr>name = ''Invisible Plus'', code = ''U+2064'', category = MathInvisible\<rparr>),
    (0xFEFF, \<lparr>name = ''Byte Order Mark (BOM)'', code = ''U+FEFF'', category = Bom\<rparr>),
    (0x00AD, \<lparr>name = ''Soft Hyphen'', code = ''U+00AD'', category = Format\<rparr>),
    (0xFE00, \<lparr>name = ''Variation Selector-1'', code = ''U+FE00'', category = Variation\<rparr>),
    (0xFE01, \<lparr>name = ''Variation Selector-2'', code = ''U+FE01'', category = Variation\<rparr>),
    (0xFE02, \<lparr>name = ''Variation Selector-3'', code = ''U+FE02'', category = Variation\<rparr>),
    (0xFE03, \<lparr>name = ''Variation Selector-4'', code = ''U+FE03'', category = Variation\<rparr>),
    (0xFE04, \<lparr>name = ''Variation Selector-5'', code = ''U+FE04'', category = Variation\<rparr>),
    (0xFE05, \<lparr>name = ''Variation Selector-6'', code = ''U+FE05'', category = Variation\<rparr>),
    (0xFE06, \<lparr>name = ''Variation Selector-7'', code = ''U+FE06'', category = Variation\<rparr>),
    (0xFE07, \<lparr>name = ''Variation Selector-8'', code = ''U+FE07'', category = Variation\<rparr>),
    (0xFE08, \<lparr>name = ''Variation Selector-9'', code = ''U+FE08'', category = Variation\<rparr>),
    (0xFE09, \<lparr>name = ''Variation Selector-10'', code = ''U+FE09'', category = Variation\<rparr>),
    (0xFE0A, \<lparr>name = ''Variation Selector-11'', code = ''U+FE0A'', category = Variation\<rparr>),
    (0xFE0B, \<lparr>name = ''Variation Selector-12'', code = ''U+FE0B'', category = Variation\<rparr>),
    (0xFE0C, \<lparr>name = ''Variation Selector-13'', code = ''U+FE0C'', category = Variation\<rparr>),
    (0xFE0D, \<lparr>name = ''Variation Selector-14'', code = ''U+FE0D'', category = Variation\<rparr>),
    (0xFE0E, \<lparr>name = ''Variation Selector-15'', code = ''U+FE0E'', category = Variation\<rparr>),
    (0xFE0F, \<lparr>name = ''Variation Selector-16'', code = ''U+FE0F'', category = Variation\<rparr>),
    (0xFFF9, \<lparr>name = ''Interlinear Annotation Anchor'', code = ''U+FFF9'', category = Annotation\<rparr>),
    (0xFFFA, \<lparr>name = ''Interlinear Annotation Separator'', code = ''U+FFFA'', category = Annotation\<rparr>),
    (0xFFFB, \<lparr>name = ''Interlinear Annotation Terminator'', code = ''U+FFFB'', category = Annotation\<rparr>),
    (0x061C, \<lparr>name = ''Arabic Letter Mark'', code = ''U+061C'', category = Direction\<rparr>),
    (0x2066, \<lparr>name = ''Left-to-Right Isolate'', code = ''U+2066'', category = Direction\<rparr>),
    (0x2067, \<lparr>name = ''Right-to-Left Isolate'', code = ''U+2067'', category = Direction\<rparr>),
    (0x2068, \<lparr>name = ''First Strong Isolate'', code = ''U+2068'', category = Direction\<rparr>),
    (0x2069, \<lparr>name = ''Pop Directional Isolate'', code = ''U+2069'', category = Direction\<rparr>),
    (0x180E, \<lparr>name = ''Mongolian Vowel Separator'', code = ''U+180E'', category = Format\<rparr>),
    (0x115F, \<lparr>name = ''Hangul Choseong Filler'', code = ''U+115F'', category = Filler\<rparr>),
    (0x1160, \<lparr>name = ''Hangul Jungseong Filler'', code = ''U+1160'', category = Filler\<rparr>),
    (0x3164, \<lparr>name = ''Hangul Filler'', code = ''U+3164'', category = Filler\<rparr>),
    (0xFFA0, \<lparr>name = ''Halfwidth Hangul Filler'', code = ''U+FFA0'', category = Filler\<rparr>),
    (0xFFFC, \<lparr>name = ''Object Replacement Character'', code = ''U+FFFC'', category = Format\<rparr>),
    (0xFFFD, \<lparr>name = ''Replacement Character'', code = ''U+FFFD'', category = Format\<rparr>),
    (0x2011, \<lparr>name = ''Non-Breaking Hyphen'', code = ''U+2011'', category = Format\<rparr>),
    (0x200A, \<lparr>name = ''Hair Space'', code = ''U+200A'', category = Space\<rparr>),
    (0x2009, \<lparr>name = ''Thin Space'', code = ''U+2009'', category = Space\<rparr>),
    (0x2008, \<lparr>name = ''Punctuation Space'', code = ''U+2008'', category = Space\<rparr>),
    (0x2007, \<lparr>name = ''Figure Space'', code = ''U+2007'', category = Space\<rparr>),
    (0x2006, \<lparr>name = ''Six-Per-Em Space'', code = ''U+2006'', category = Space\<rparr>),
    (0x2005, \<lparr>name = ''Four-Per-Em Space'', code = ''U+2005'', category = Space\<rparr>),
    (0x2004, \<lparr>name = ''Three-Per-Em Space'', code = ''U+2004'', category = Space\<rparr>),
    (0x2003, \<lparr>name = ''Em Space'', code = ''U+2003'', category = Space\<rparr>),
    (0x2002, \<lparr>name = ''En Space'', code = ''U+2002'', category = Space\<rparr>),
    (0x2001, \<lparr>name = ''Em Quad'', code = ''U+2001'', category = Space\<rparr>),
    (0x2000, \<lparr>name = ''En Quad'', code = ''U+2000'', category = Space\<rparr>),
    (0x00A0, \<lparr>name = ''Non-Breaking Space'', code = ''U+00A0'', category = Space\<rparr>),
    (0x205F, \<lparr>name = ''Medium Mathematical Space'', code = ''U+205F'', category = Space\<rparr>),
    (0x3000, \<lparr>name = ''Ideographic Space'', code = ''U+3000'', category = Space\<rparr>)
  ]"

text \<open>
  \<^verbatim>\<open>INVISIBLE_CHARS[ch]\<close> for a one-unit string \<^verbatim>\<open>ch\<close>: the own property, if any (no
  property inherited from \<^verbatim>\<open>Object.prototype\<close> has a one-character name).
\<close>

definition lookup_info :: "u16 \<Rightarrow> char_info option" where
  "lookup_info ch = map_of INVISIBLE_CHARS ch"

definition FORMATTING_CATEGORIES :: "category list" where
  "FORMATTING_CATEGORIES = [Formatting]"

definition SPACE_CATEGORIES :: "category list" where
  "SPACE_CATEGORIES = [Space]"

definition STRIPPABLE_CHARS :: "u16 list" where
  "STRIPPABLE_CHARS = map fst (filter (\<lambda>(k, v). category v \<noteq> Formatting) INVISIBLE_CHARS)"

text \<open>The C0/C1 control ranges, written twice in the source (regex and range test).\<close>

definition isControl :: "u16 \<Rightarrow> bool" where
  "isControl c = ((0 \<le> c \<and> c \<le> 8) \<or> c = 0x0B \<or> (0x0E \<le> c \<and> c \<le> 0x1F)
     \<or> c = 0x7F \<or> (0x80 \<le> c \<and> c \<le> 0x9F))"

text \<open>Membership in the character class of \<^verbatim>\<open>INVISIBLE_REGEX\<close>.\<close>

definition INVISIBLE_REGEX :: "u16 \<Rightarrow> bool" where
  "INVISIBLE_REGEX c = (c \<in> set STRIPPABLE_CHARS
     \<or> (0x0000 \<le> c \<and> c \<le> 0x0008) \<or> c = 0x000B \<or> (0x000E \<le> c \<and> c \<le> 0x001F)
     \<or> c = 0x007F \<or> (0x0080 \<le> c \<and> c \<le> 0x009F))"

subsection \<open>The homoglyph table\<close>

definition HOMOGLYPHS :: "(u16 \<times> u16) list" where
  "HOMOGLYPHS = [
    (0x0410, 0x41), (0x0412, 0x42), (0x0421, 0x43), (0x0415, 0x45), (0x041D, 0x48),
    (0x041A, 0x4B), (0x041C, 0x4D), (0x041E, 0x4F), (0x0420, 0x50), (0x0422, 0x54),
    (0x0425, 0x58), (0x0430, 0x61), (0x0435, 0x65), (0x043E, 0x6F), (0x0440, 0x70),
    (0x0441, 0x63), (0x0443, 0x79), (0x0445, 0x78), (0x0456, 0x69), (0x0458, 0x6A),
    (0x04BB, 0x68), (0x0501, 0x64), (0x0391, 0x41), (0x0392, 0x42), (0x0395, 0x45),
    (0x0396, 0x5A), (0x0397, 0x48), (0x0399, 0x49), (0x039A, 0x4B), (0x039C, 0x4D),
    (0x039D, 0x4E), (0x039F, 0x4F), (0x03A1, 0x50), (0x03A4, 0x54), (0x03A5, 0x59),
    (0x03A7, 0x58), (0x03BF, 0x6F), (0xFF21, 0x41), (0xFF22, 0x42), (0xFF23, 0x43),
    (0xFF24, 0x44), (0xFF25, 0x45), (0xFF26, 0x46), (0xFF27, 0x47), (0xFF28, 0x48),
    (0xFF29, 0x49), (0xFF2A, 0x4A), (0xFF2B, 0x4B), (0xFF2C, 0x4C), (0xFF2D, 0x4D),
    (0xFF2E, 0x4E), (0xFF2F, 0x4F), (0xFF30, 0x50), (0xFF31, 0x51), (0xFF32, 0x52),
    (0xFF33, 0x53), (0xFF34, 0x54), (0xFF35, 0x55), (0xFF36, 0x56), (0xFF37, 0x57),
    (0xFF38, 0x58), (0xFF39, 0x59), (0xFF3A, 0x5A), (0xFF41, 0x61), (0xFF42, 0x62),
    (0xFF43, 0x63), (0xFF44, 0x64), (0xFF45, 0x65), (0xFF46, 0x66), (0xFF47, 0x67),
    (0xFF48, 0x68), (0xFF49, 0x69), (0xFF4A, 0x6A), (0xFF4B, 0x6B), (0xFF4C, 0x6C),
    (0xFF4D, 0x6D), (0xFF4E, 0x6E), (0xFF4F, 0x6F), (0xFF50, 0x70), (0xFF51, 0x71),
    (0xFF52, 0x72), (0xFF53, 0x73), (0xFF54, 0x74), (0xFF55, 0x75), (0xFF56, 0x76),
    (0xFF57, 0x77), (0xFF58, 0x78), (0xFF59, 0x79), (0xFF5A, 0x7A), (0x2010, 0x2D),
    (0x2011, 0x2D), (0x2012, 0x2D), (0x2013, 0x2D), (0x2014, 0x2D), (0x2018, 0x27),
    (0x2019, 0x27), (0x201C, 0x22), (0x201D, 0x22), (0x2032, 0x27), (0x2033, 0x22),
    (0x00A0, 0x20), (0x2000, 0x20), (0x2001, 0x20), (0x2002, 0x20), (0x2003, 0x20),
    (0x2004, 0x20), (0x2005, 0x20), (0x2006, 0x20), (0x2007, 0x20), (0x2008, 0x20),
    (0x2009, 0x20), (0x200A, 0x20), (0x205F, 0x20), (0x3000, 0x20)
  ]"

text \<open>Every replacement is a non-empty string, hence truthy.\<close>

definition lookup_homoglyph :: "u16 \<Rightarrow> u16 option" where
  "lookup_homoglyph ch = map_of HOMOGLYPHS ch"

definition HOMOGLYPH_REGEX :: "u16 \<Rightarrow> bool" where
  "HOMOGLYPH_REGEX c = (c \<in> set (map fst HOMOGLYPHS))"

subsection \<open>Code labels\<close>

definition hex_digit :: "nat \<Rightarrow> char" where
  "hex_digit d = (''0123456789ABCDEF'' ! d)"

fun to_hex :: "nat \<Rightarrow> string" where
  "to_hex n = (if n < 16 then [hex_digit n] else to_hex (n div 16) @ [hex_digit (n mod 16)])"

declare to_hex.simps [simp del]

definition padStart :: "nat \<Rightarrow> char \<Rightarrow> string \<Rightarrow> string" where
  "padStart n p s = replicate (n - length s) p @ s"

text \<open>\<^verbatim>\<open>'U+' + code.toString(16).toUpperCase().padStart(4, '0')\<close>\<close>

definition code_label :: "u16 \<Rightarrow> string" where
  "code_label ch = ''U+'' @ padStart 4 (CHR ''0'') (to_hex (unat ch))"

subsection \<open>detect\<close>

text \<open>
  The result objects of the three scanners use the same property names (\<^verbatim>\<open>total\<close>,
  \<^verbatim>\<open>chars\<close>, \<^verbatim>\<open>count\<close>, \<^verbatim>\<open>code\<close>); the fields of their records carry a letter
  in front where a name is taken. A \<^verbatim>\<open>Map\<close> is an association list in insertion
  order.
\<close>

datatype error = TypeError | RangeError | SyntaxError

record detection_entry =
  info :: char_info
  count :: nat
  positions :: "nat list"

record detection_result =
  dtotal :: nat
  chars :: "(u16 \<times> detection_entry) list"

record detect_options =
  includeFormatting :: "bool option"

text \<open>
  The body shared by both branches of the loop: count the character, create its entry
  if the map has none, then read the entry back with \<^verbatim>\<open>chars.get(ch)\<close> and update it.
  Reading a property of \<^verbatim>\<open>undefined\<close> would throw.
\<close>

definition record_char :: "u16 \<Rightarrow> char_info \<Rightarrow> nat \<Rightarrow> detection_result \<Rightarrow> error + detection_result" where
  "record_char ch nfo i r =
     (let cs = (if map_of (chars r) ch = None
                then AList.update ch \<lparr>info = nfo, count = 0, positions = []\<rparr> (chars r)
                else chars r)
      in case map_of cs ch of
           None \<Rightarrow> Inl TypeError
         | Some entry \<Rightarrow>
             Inr \<lparr>dtotal = dtotal r + 1,
                  chars = AList.update ch
                    (entry\<lparr>count := count entry + 1, positions := positions entry @ [i]\<rparr>) cs\<rparr>)"

definition controlInfo :: "u16 \<Rightarrow> char_info" where
  "controlInfo ch = \<lparr>name = ''Control Character'', code = code_label ch, category = Control\<rparr>"

fun detect_loop :: "bool \<Rightarrow> jstring \<Rightarrow> nat \<Rightarrow> detection_result \<Rightarrow> error + detection_result" where
  "detect_loop inc [] i r = Inr r"
| "detect_loop inc (ch # rest) i r =
     (case lookup_info ch of
        Some nfo \<Rightarrow>
          if \<not> inc \<and> category nfo \<in> set FORMATTING_CATEGORIES then detect_loop inc rest (i + 1) r
          else (case record_char ch nfo i r of
                  Inl e \<Rightarrow> Inl e
                | Inr r' \<Rightarrow> detect_loop inc rest (i + 1) r')
      | None \<Rightarrow>
          if isControl ch
          then (case record_char ch (controlInfo ch) i r of
                  Inl e \<Rightarrow> Inl e
                | Inr r' \<Rightarrow> detect_loop inc rest (i + 1) r')
          else detect_loop inc rest (i + 1) r)"

definition detect :: "jstring \<Rightarrow> detect_options \<Rightarrow> error + detection_result" where
  "detect str options =
     (let inc = (case includeFormatting options of Some b \<Rightarrow> b | None \<Rightarrow> False)
      in detect_loop inc str 0 \<lparr>dtotal = 0, chars = []\<rparr>)"

subsection \<open>detectHomoglyphs\<close>

text \<open>The arguments \<^verbatim>\<open>text\<close> and \<^verbatim>\<open>index\<close> are accepted and never read.\<close>

definition isExpectedChar :: "jstring \<Rightarrow> nat \<Rightarrow> u16 \<Rightarrow> bool" where
  "isExpectedChar str index ch =
     (if ch = 0x00A0 \<or> ch = 0x2018 \<or> ch = 0x2019 \<or> ch = 0x201C \<or> ch = 0x201D
         \<or> ch = 0x2013 \<or> ch = 0x2014
      then True else False)"

record homoglyph_entry =
  original :: u16
  hcode :: string
  replacement :: u16
  hcount :: nat

record homoglyph_result =
  htotal :: nat
  hchars :: "(u16 \<times> homoglyph_entry) list"

fun homoglyph_loop :: "jstring \<Rightarrow> jstring \<Rightarrow> nat \<Rightarrow> homoglyph_result \<Rightarrow> error + homoglyph_result" where
  "homoglyph_loop str [] i r = Inr r"
| "homoglyph_loop str (ch # rest) i r =
     (case lookup_homoglyph ch of
        Some rep \<Rightarrow>
          if \<not> isExpectedChar str i ch
          then (let cs = (if map_of (hchars r) ch = None
                          then AList.update ch
                                 \<lparr>original = ch, hcode = code_label ch, replacement = rep, hcount = 0\<rparr>
                                 (hchars r)
                          else hchars r)
                in case map_of cs ch of
                     None \<Rightarrow> Inl TypeError
                   | Some entry \<Rightarrow>
                       homoglyph_loop str rest (i + 1)
                         \<lparr>htotal = htotal r + 1,
                          hchars = AList.update ch (entry\<lparr>hcount := hcount entry + 1\<rparr>) cs\<rparr>)
          else homoglyph_loop str rest (i + 1) r
      | None \<Rightarrow> homoglyph_loop str rest (i + 1) r)"

definition detectHomoglyphs :: "jstring \<Rightarrow> error + homoglyph_result" where
  "detectHomoglyphs str = homoglyph_loop str str 0 \<lparr>htotal = 0, hchars = []\<rparr>"


text \<open>
  The seven typographic characters the specification exempts: non-breaking space, curly
  single and double quotes, en dash and em dash.
\<close>

definition EXEMPTED :: "u16 list" where
  "EXEMPTED = [0x00A0, 0x2018, 0x2019, 0x201C, 0x201D, 0x2013, 0x2014]"

text \<open>What the scan flags: a key of the table that the exemption does not cover.\<close>

definition flagged :: "u16 \<Rightarrow> bool" where
  "flagged c = (lookup_homoglyph c \<noteq> None \<and> \<not> isExpectedChar [] 0 c)"


subsection \<open>Regular expression pieces\<close>

text \<open>
  \<^verbatim>\<open>$\<close> under the \<^verbatim>\<open>m\<close> flag holds at the end of the input and before a line
  terminator (LF, CR, U+2028, U+2029).
\<close>

definition isLineTerminator :: "u16 \<Rightarrow> bool" where
  "isLineTerminator c = (c = 0x000A \<or> c = 0x000D \<or> c = 0x2028 \<or> c = 0x2029)"

definition at_line_end :: "jstring \<Rightarrow> bool" where
  "at_line_end s = (case s of [] \<Rightarrow> True | d # _ \<Rightarrow> isLineTerminator d)"

text \<open>The class \<^verbatim>\<open>\s\<close>: white space and line terminators of ECMAScript.\<close>

definition isSpace :: "u16 \<Rightarrow> bool" where
  "isSpace c = (c = 0x0009 \<or> c = 0x000A \<or> c = 0x000B \<or> c = 0x000C \<or> c = 0x000D
     \<or> c = 0x0020 \<or> c = 0x00A0 \<or> c = 0x1680 \<or> (0x2000 \<le> c \<and> c \<le> 0x200A)
     \<or> c = 0x2028 \<or> c = 0x2029 \<or> c = 0x202F \<or> c = 0x205F \<or> c = 0x3000 \<or> c = 0xFEFF)"

text \<open>
  \<^verbatim>\<open>/[ \t]+$/m\<close> tried at the start of a string: the length of the match. The
  quantifier is greedy, so the longer match is tried first and the engine backtracks to
  end the run here only when that fails.
\<close>

fun match_trailing :: "jstring \<Rightarrow> nat option" where
  "match_trailing [] = None"
| "match_trailing (c # cs) =
     (if c = 0x0020 \<or> c = 0x0009
      then (case match_trailing cs of
              Some n \<Rightarrow> Some (Suc n)
            | None \<Rightarrow> if at_line_end cs then Some 1 else None)
      else None)"

text \<open>
  \<^verbatim>\<open>/(?<=\S) {2,}(?=\S)/\<close> tried at the start of a string whose preceding unit is
  \<^verbatim>\<open>prev\<close>: a shorter run of spaces is followed by a space, which is not \<^verbatim>\<open>\S\<close>, so
  only the whole run can match.
\<close>

definition match_double :: "u16 option \<Rightarrow> jstring \<Rightarrow> nat option" where
  "match_double prev s =
     (case prev of
        None \<Rightarrow> None
      | Some p \<Rightarrow>
          if isSpace p then None
          else (let n = length (takeWhile (\<lambda>d. d = 0x0020) s)
                in if 2 \<le> n \<and> (case drop n s of [] \<Rightarrow> False | d # _ \<Rightarrow> \<not> isSpace d)
                   then Some n else None))"

subsection \<open>detectWhitespaceAnomalies\<close>

datatype issue_type = TrailingSpace | DoubleSpace | MixedEndings | SpecialSpace

record ws_issue =
  itype :: issue_type
  icount :: nat
  description :: string

record ws_result =
  wtotal :: nat
  issues :: "ws_issue list"

text \<open>\<^verbatim>\<open>text.match(/[ \t]+$/gm)\<close>: the number of matches, scanning from the left.\<close>

function count_trailing :: "jstring \<Rightarrow> nat" where
  "count_trailing [] = 0"
| "count_trailing (c # cs) =
     (case match_trailing (c # cs) of
        Some n \<Rightarrow> Suc (count_trailing (drop (n - 1) cs))
      | None \<Rightarrow> count_trailing cs)"
  by pat_completeness auto
termination
  by (relation "measure length") (auto simp: less_Suc_eq_le)

text \<open>\<^verbatim>\<open>text.match(/(?<=\S) {2,}(?=\S)/g)\<close>: the number of matches.\<close>

function count_double :: "u16 option \<Rightarrow> jstring \<Rightarrow> nat" where
  "count_double prev [] = 0"
| "count_double prev (c # cs) =
     (case match_double prev (c # cs) of
        Some n \<Rightarrow> Suc (count_double (Some 0x0020) (drop (n - 1) cs))
      | None \<Rightarrow> count_double (Some c) cs)"
  by pat_completeness auto
termination
  by (relation "measure (\<lambda>(prev, s). length s)") (auto simp: less_Suc_eq_le)

text \<open>\<^verbatim>\<open>text.includes('\r\n')\<close>\<close>

fun includes_crlf :: "jstring \<Rightarrow> bool" where
  "includes_crlf (a # b # rest) = ((a = 0x000D \<and> b = 0x000A) \<or> includes_crlf (b # rest))"
| "includes_crlf _ = False"

text \<open>\<^verbatim>\<open>/(?<!\r)\n/.test(text)\<close>, with the unit before the current one.\<close>

fun test_bare_lf :: "u16 option \<Rightarrow> jstring \<Rightarrow> bool" where
  "test_bare_lf prev [] = False"
| "test_bare_lf prev (c # cs) = ((c = 0x000A \<and> prev \<noteq> Some 0x000D) \<or> test_bare_lf (Some c) cs)"

definition spaceChars :: "(u16 \<times> char_info) list" where
  "spaceChars = filter (\<lambda>(k, v). category v = Space) INVISIBLE_CHARS"

text \<open>
  The loop over the special spaces: the pattern is the character itself (none of them
  is a regex metacharacter, so the escaping changes nothing), and the matches are its
  occurrences.
\<close>

fun special_space_loop :: "(u16 \<times> char_info) list \<Rightarrow> jstring \<Rightarrow> ws_result \<Rightarrow> ws_result" where
  "special_space_loop [] str r = r"
| "special_space_loop ((ch, nfo) # others) str r =
     (let matches = count_list str ch
      in if 0 < matches
         then special_space_loop others str
                \<lparr>wtotal = wtotal r + matches,
                 issues = issues r @ [\<lparr>itype = SpecialSpace, icount = matches,
                                       description = name nfo @ '' ('' @ code nfo @ '')''\<rparr>]\<rparr>
         else special_space_loop others str r)"

definition detectWhitespaceAnomalies :: "jstring \<Rightarrow> ws_result" where
  "detectWhitespaceAnomalies str =
     (let r0 = \<lparr>wtotal = 0, issues = []\<rparr>;
          trailingMatches = count_trailing str;
          r1 = (if 0 < trailingMatches
                then \<lparr>wtotal = wtotal r0 + trailingMatches,
                      issues = issues r0 @ [\<lparr>itype = TrailingSpace, icount = trailingMatches,
                                            description = ''Trailing spaces on lines''\<rparr>]\<rparr>
                else r0);
          doubleSpaceMatches = count_double None str;
          r2 = (if 0 < doubleSpaceMatches
                then \<lparr>wtotal = wtotal r1 + doubleSpaceMatches,
                      issues = issues r1 @ [\<lparr>itype = DoubleSpace, icount = doubleSpaceMatches,
                                            description = ''Multiple consecutive spaces''\<rparr>]\<rparr>
                else r1);
          hasCRLF = includes_crlf str;
          hasLF = test_bare_lf None str;
          r3 = (if hasCRLF \<and> hasLF
                then \<lparr>wtotal = wtotal r2 + 1,
                      issues = issues r2 @ [\<lparr>itype = MixedEndings, icount = 1,
                                            description = ''Mixed line endings (CRLF + LF)''\<rparr>]\<rparr>
                else r2)
      in special_space_loop spaceChars str r3)"

text \<open>
  The two conditions of the mixed-endings check in the words of the specification: the
  text contains a CRLF terminator, and it contains a bare LF, one that is not preceded
  by CR.
\<close>

definition has_crlf_terminator :: "jstring \<Rightarrow> bool" where
  "has_crlf_terminator s = (\<exists>i. Suc i < length s \<and> s ! i = 0x000D \<and> s ! Suc i = 0x000A)"

definition has_bare_lf :: "jstring \<Rightarrow> bool" where
  "has_bare_lf s = (\<exists>j. j < length s \<and> s ! j = 0x000A \<and> (if j = 0 then True else s ! (j - 1) \<noteq> 0x000D))"


subsection \<open>Global replacement\<close>

text \<open>
  \<^verbatim>\<open>str.replace(regex, replacement)\<close> with the \<^verbatim>\<open>g\<close> flag, for a pattern that cannot
  match the empty string: scan from the left; where the pattern matches \<^verbatim>\<open>n\<close> units,
  emit the replacement and go on after the match, otherwise copy one unit.
\<close>

function replace_global :: "(jstring \<Rightarrow> nat option) \<Rightarrow> jstring \<Rightarrow> jstring \<Rightarrow> jstring" where
  "replace_global m rep [] = []"
| "replace_global m rep (c # cs) =
     (case m (c # cs) of
        Some n \<Rightarrow> rep @ replace_global m rep (drop (n - 1) cs)
      | None \<Rightarrow> c # replace_global m rep cs)"
  by pat_completeness auto
termination
  by (relation "measure (\<lambda>(m, rep, s). length s)") (auto simp: less_Suc_eq_le)

text \<open>
  \<^verbatim>\<open>/<[^>]*>/\<close>: the class takes every unit up to the first \<^verbatim>\<open>>\<close>; without one
  there is no match.
\<close>

definition match_tag :: "jstring \<Rightarrow> nat option" where
  "match_tag s =
     (case s of
        [] \<Rightarrow> None
      | c # cs \<Rightarrow>
          if c = 0x003C
          then (let body = takeWhile (\<lambda>d. d \<noteq> 0x003E) cs
                in if length body < length cs then Some (length body + 2) else None)
          else None)"

text \<open>
  A literal ASCII pattern under the \<^verbatim>\<open>i\<close> flag (no \<^verbatim>\<open>u\<close> flag): two units match
  when their canonical forms agree, and a non-ASCII unit is never canonicalized to an
  ASCII one, so a unit matches an ASCII pattern unit exactly when both are the same
  ASCII letter up to case, or equal.
\<close>

definition toUpperASCII :: "u16 \<Rightarrow> u16" where
  "toUpperASCII c = (if 0x0061 \<le> c \<and> c \<le> 0x007A then c - 0x0020 else c)"

definition match_literal_ci :: "string \<Rightarrow> jstring \<Rightarrow> nat option" where
  "match_literal_ci pat s =
     (if length pat \<le> length s
         \<and> map toUpperASCII (take (length pat) s) = map toUpperASCII (utf16 pat)
      then Some (length pat) else None)"

text \<open>\<^verbatim>\<open>/[\uDB40][\uDC01-\uDC7F]|[\uDB40][\uDD00-\uDDEF]/\<close>\<close>

definition SUPPLEMENTARY_REGEX :: "jstring \<Rightarrow> nat option" where
  "SUPPLEMENTARY_REGEX s =
     (case s of
        a # b # _ \<Rightarrow>
          if a = 0xDB40 \<and> ((0xDC01 \<le> b \<and> b \<le> 0xDC7F) \<or> (0xDD00 \<le> b \<and> b \<le> 0xDDEF))
          then Some 2 else None
      | _ \<Rightarrow> None)"

text \<open>\<^verbatim>\<open>/ {2,}/\<close>: the whole run of spaces, when it has two or more.\<close>

definition match_spaces :: "jstring \<Rightarrow> nat option" where
  "match_spaces s =
     (let n = length (takeWhile (\<lambda>d. d = 0x0020) s) in if 2 \<le> n then Some n else None)"

subsection \<open>clean\<close>

record clean_options =
  normalize :: "bool option"
  fixHomoglyphs :: "bool option"
  stripSpaces :: "bool option"
  stripHTML :: "bool option"

text \<open>A missing key reads as \<^verbatim>\<open>undefined\<close>, which is falsy and is not \<^verbatim>\<open>false\<close>.\<close>

definition truthy :: "bool option \<Rightarrow> bool" where
  "truthy v = (case v of Some b \<Rightarrow> b | None \<Rightarrow> False)"

definition not_false :: "bool option \<Rightarrow> bool" where
  "not_false v = (case v of Some b \<Rightarrow> b | None \<Rightarrow> True)"

definition strip_html :: "jstring \<Rightarrow> jstring" where
  \<open>strip_html result0 =
     (let result1 = replace_global match_tag [] result0;
          result2 = replace_global (match_literal_ci ''&nbsp;'') (utf16 '' '') result1;
          result3 = replace_global (match_literal_ci ''&amp;'') (utf16 ''&'') result2;
          result4 = replace_global (match_literal_ci ''&lt;'') (utf16 ''<'') result3;
          result5 = replace_global (match_literal_ci ''&gt;'') (utf16 ''>'') result4;
          result6 = replace_global (match_literal_ci ''&quot;'') (utf16 ''"'') result5
      in replace_global (match_literal_ci ''&#39;'') [0x0027] result6)\<close>

text \<open>The replacement callback of the homoglyph step.\<close>

definition fix_homoglyph :: "jstring \<Rightarrow> u16 \<Rightarrow> u16" where
  "fix_homoglyph result ch =
     (if isExpectedChar result 0 ch then ch
      else (case lookup_homoglyph ch of Some rep \<Rightarrow> rep | None \<Rightarrow> ch))"

text \<open>
  \<^verbatim>\<open>String.prototype.normalize\<close> belongs to the JavaScript runtime, not to this
  program: \<^verbatim>\<open>clean\<close> takes the function computing \<^verbatim>\<open>s.normalize('NFC')\<close> as its
  first argument.
\<close>

definition clean :: "(jstring \<Rightarrow> jstring) \<Rightarrow> jstring \<Rightarrow> clean_options \<Rightarrow> jstring" where
  "clean nfc str options =
     (let result0 = str;
          result1 = (if truthy (stripHTML options) then strip_html result0 else result0);
          result2 = filter (\<lambda>c. \<not> INVISIBLE_REGEX c) result1;
          result3 = replace_global SUPPLEMENTARY_REGEX [] result2;
          result4 = (if not_false (normalize options) then nfc result3 else result3);
          result5 = (if truthy (fixHomoglyphs options)
                     then map (\<lambda>ch. if HOMOGLYPH_REGEX ch then fix_homoglyph result4 ch else ch) result4
                     else result4);
          result6 = replace_global match_trailing [] result5
      in replace_global match_spaces [0x0020] result6)"

definition default_options :: clean_options where
  "default_options = \<lparr>normalize = None, fixHomoglyphs = None, stripSpaces = None, stripHTML = None\<rparr>"

subsection \<open>revealHTML\<close>

text \<open>\<^verbatim>\<open>str.replace(/c/g, rep)\<close> for a single character \<^verbatim>\<open>c\<close>.\<close>

definition replace_char :: "u16 \<Rightarrow> jstring \<Rightarrow> jstring \<Rightarrow> jstring" where
  "replace_char c rep s = concat (map (\<lambda>d. if d = c then rep else [d]) s)"

definition escapeHTML :: "jstring \<Rightarrow> jstring" where
  \<open>escapeHTML s =
     replace_char 0x0027 (utf16 ''&#039;'')
       (replace_char 0x0022 (utf16 ''&quot;'')
         (replace_char 0x003E (utf16 ''&gt;'')
           (replace_char 0x003C (utf16 ''&lt;'')
             (replace_char 0x0026 (utf16 ''&amp;'') s))))\<close>

definition visible_span :: "jstring \<Rightarrow> jstring" where
  \<open>visible_span visibleBuffer =
     utf16 ''<span class="char-visible">'' @ escapeHTML visibleBuffer @ utf16 ''</span>''\<close>

definition annotation_span :: "string \<Rightarrow> string \<Rightarrow> string \<Rightarrow> jstring" where
  \<open>annotation_span cssClass charName label =
     utf16 (''<span class="'' @ cssClass @ ''" title="'' @ charName @ '' ('' @ label @ '')">[''
            @ label @ '']</span>'')\<close>

definition shouldAnnotate :: "bool \<Rightarrow> u16 \<Rightarrow> bool" where
  "shouldAnnotate inc ch =
     (case lookup_info ch of
        Some nfo \<Rightarrow> if category nfo \<in> set FORMATTING_CATEGORIES then inc else True
      | None \<Rightarrow> isControl ch)"

fun reveal_loop :: "bool \<Rightarrow> jstring \<Rightarrow> jstring list \<Rightarrow> jstring \<Rightarrow> jstring list \<times> jstring" where
  "reveal_loop inc [] parts visibleBuffer = (parts, visibleBuffer)"
| "reveal_loop inc (ch # rest) parts visibleBuffer =
     (if shouldAnnotate inc ch
      then (let parts1 = (if visibleBuffer \<noteq> [] then parts @ [visible_span visibleBuffer] else parts);
                label = (case lookup_info ch of Some nfo \<Rightarrow> code nfo | None \<Rightarrow> code_label ch);
                charName = (case lookup_info ch of Some nfo \<Rightarrow> name nfo
                            | None \<Rightarrow> ''Control Character'');
                cssClass = (case lookup_info ch of
                              Some nfo \<Rightarrow> if category nfo \<in> set FORMATTING_CATEGORIES
                                          then ''char-formatting'' else ''char-hidden''
                            | None \<Rightarrow> ''char-hidden'')
            in reveal_loop inc rest (parts1 @ [annotation_span cssClass charName label]) [])
      else reveal_loop inc rest parts (visibleBuffer @ [ch]))"

definition revealHTML :: "jstring \<Rightarrow> detect_options \<Rightarrow> jstring" where
  "revealHTML str options =
     (let inc = not_false (includeFormatting options);
          (parts, visibleBuffer) = reveal_loop inc str [] [];
          parts1 = (if visibleBuffer \<noteq> [] then parts @ [visible_span visibleBuffer] else parts)
      in concat parts1)"


subsection \<open>inject\<close>

record inject_types =
  zwsp :: "bool option"
  zwnj :: "bool option"
  bom :: "bool option"
  invisSep :: "bool option"

record inject_result =
  injected_text :: jstring
  injected_count :: nat

text \<open>
  \<^verbatim>\<open>text.split(/(\s+)/)\<close>: the pieces between the runs of white space, with each run
  (the capture group) between them. The first argument is the piece being read.
\<close>

function split_ws :: "jstring \<Rightarrow> jstring \<Rightarrow> jstring list" where
  "split_ws piece [] = [piece]"
| "split_ws piece (c # cs) =
     (if isSpace c
      then piece # (c # takeWhile isSpace cs) # split_ws [] (dropWhile isSpace cs)
      else split_ws (piece @ [c]) cs)"
  by pat_completeness auto
termination
  by (relation "measure (\<lambda>(piece, s). length s)") (auto simp: less_Suc_eq_le length_dropWhile_le)

text \<open>
  \<^verbatim>\<open>str.slice(0, e)\<close> and \<^verbatim>\<open>str.slice(b)\<close>: a negative index counts from the end, and
  every index is clamped to the string.
\<close>

definition relative_index :: "jstring \<Rightarrow> int \<Rightarrow> nat" where
  "relative_index s i = (if i < 0 then nat (max (int (length s) + i) 0) else min (nat i) (length s))"

definition slice_to :: "jstring \<Rightarrow> int \<Rightarrow> jstring" where
  "slice_to s e = take (relative_index s e) s"

definition slice_from :: "jstring \<Rightarrow> int \<Rightarrow> jstring" where
  "slice_from s b = drop (relative_index s b) s"

text \<open>
  \<^verbatim>\<open>chars[Math.floor(r * chars.length)]\<close>, appended to a string: an index outside the
  array reads \<^verbatim>\<open>undefined\<close>, which concatenates as the word \<^verbatim>\<open>undefined\<close>.
\<close>

definition pick_char :: "jstring \<Rightarrow> real \<Rightarrow> jstring" where
  "pick_char cs r =
     (let idx = \<lfloor>r * real (length cs)\<rfloor>
      in if 0 \<le> idx \<and> idx < int (length cs) then [cs ! nat idx] else utf16 ''undefined'')"

text \<open>
  The loop over the words. \<^verbatim>\<open>Math.random()\<close> is the sequence \<^verbatim>\<open>rand\<close> of its
  successive values, and \<^verbatim>\<open>k\<close> counts the values drawn so far; \<^verbatim>\<open>&&\<close> draws its
  right operand only when the left one holds.
\<close>

fun inject_loop :: "(nat \<Rightarrow> real) \<Rightarrow> jstring \<Rightarrow> jstring list \<Rightarrow> jstring \<times> nat \<times> nat \<Rightarrow> jstring \<times> nat \<times> nat" where
  "inject_loop rand cs [] st = st"
| "inject_loop rand cs (w # ws) (result, cnt, k) =
     (let result1 = result @ w;
          (result2, cnt2, k2) =
            (if ws \<noteq> []
             then (if rand k < 0.6
                   then (result1 @ pick_char cs (rand (k + 1)), cnt + 1, k + 2)
                   else (result1, cnt, k + 1))
             else (result1, cnt, k));
          (result3, cnt3, k3) =
            (if 4 < length w
             then (if rand k2 < 0.3
                   then (let pos = \<lfloor>rand (k2 + 1) * real (length w - 2)\<rfloor> + 1;
                             char = pick_char cs (rand (k2 + 2));
                             cut = int (length result2) - int (length w) + pos
                         in (slice_to result2 cut @ char @ slice_from result2 cut, cnt2 + 1, k2 + 3))
                   else (result2, cnt2, k2 + 1))
             else (result2, cnt2, k2))
      in inject_loop rand cs ws (result3, cnt3, k3))"

definition inject :: "(nat \<Rightarrow> real) \<Rightarrow> jstring \<Rightarrow> inject_types \<Rightarrow> inject_result" where
  "inject rand str types =
     (let cs = (if truthy (zwsp types) then [0x200B] else [])
             @ (if truthy (zwnj types) then [0x200C] else [])
             @ (if truthy (bom types) then [0xFEFF] else [])
             @ (if truthy (invisSep types) then [0x2061, 0x2062, 0x2063, 0x2064] else [])
      in if length cs = 0 then \<lparr>injected_text = str, injected_count = 0\<rparr>
         else (let words = split_ws [] str;
                   (result, cnt, k) = inject_loop rand cs words ([], 0, 0)
               in \<lparr>injected_text = result, injected_count = cnt\<rparr>))"

subsection \<open>getCharInfo\<close>

text \<open>
  \<^verbatim>\<open>INVISIBLE_CHARS[ch] || null\<close> for any string \<^verbatim>\<open>ch\<close>: the registry entry of a
  one-unit string, a value inherited from \<^verbatim>\<open>Object.prototype\<close> for the name of one of
  its properties, and \<^verbatim>\<open>null\<close> otherwise.
\<close>

datatype char_info_result = Descriptor char_info | Inherited | Null

definition OBJECT_PROTOTYPE_KEYS :: "string list" where
  "OBJECT_PROTOTYPE_KEYS = [''constructor'', ''__proto__'', ''hasOwnProperty'', ''isPrototypeOf'',
     ''propertyIsEnumerable'', ''toLocaleString'', ''toString'', ''valueOf'',
     ''__defineGetter__'', ''__defineSetter__'', ''__lookupGetter__'', ''__lookupSetter__'']"

definition getCharInfo :: "jstring \<Rightarrow> char_info_result" where
  "getCharInfo ch =
     (case ch of
        [c] \<Rightarrow> (case lookup_info c of Some nfo \<Rightarrow> Descriptor nfo | None \<Rightarrow> Null)
      | _ \<Rightarrow> if ch \<in> set (map utf16 OBJECT_PROTOTYPE_KEYS) then Inherited else Null)"

subsection \<open>The public API\<close>

text \<open>
  The seven operations as a caller runs them, statement by statement. Every step that
  the language lets fail is written as a step that can fail, and a thrown exception is
  the \<^verbatim>\<open>Inl\<close> result of the operation:

    \<^item> reading a property or calling a method of \<^verbatim>\<open>undefined\<close> or \<^verbatim>\<open>null\<close> throws a
      TypeError. The values that can be \<^verbatim>\<open>undefined\<close> or \<^verbatim>\<open>null\<close> here are an element
      read by index (\<^verbatim>\<open>text[i]\<close>, \<^verbatim>\<open>words[i]\<close>), the value of \<^verbatim>\<open>chars.get(ch)\<close>, the
      result of \<^verbatim>\<open>text.match(regex)\<close>, and the options argument. A lookup in the
      registry or in the homoglyph table can be \<^verbatim>\<open>undefined\<close> too; the source tests
      it before each read (\<^verbatim>\<open>if (info)\<close>, \<^verbatim>\<open>info ? info.code : ...\<close>), which is the
      case distinction on the lookup here;
    \<^item> \<^verbatim>\<open>str.normalize(form)\<close> throws a RangeError for a form it does not know;
    \<^item> \<^verbatim>\<open>new RegExp(pattern, 'g')\<close> throws a SyntaxError for a pattern it cannot parse.

  The other methods called (\<^verbatim>\<open>replace\<close>, \<^verbatim>\<open>match\<close>, \<^verbatim>\<open>split\<close>, \<^verbatim>\<open>includes\<close>,
  \<^verbatim>\<open>test\<close>, \<^verbatim>\<open>slice\<close>, \<^verbatim>\<open>join\<close>, \<^verbatim>\<open>push\<close>, the \<^verbatim>\<open>Map\<close> methods,
  \<^verbatim>\<open>toString(16)\<close>, \<^verbatim>\<open>toUpperCase\<close>, \<^verbatim>\<open>padStart\<close>) return for every string they are
  applied to with the arguments written in the source; they are the functions defined
  above.
\<close>

text \<open>\<^verbatim>\<open>xs[i]\<close>: the element, and \<^verbatim>\<open>undefined\<close> from the length on.\<close>

definition at_index :: "'a list \<Rightarrow> nat \<Rightarrow> 'a option" where
  "at_index xs i = (if i < length xs then Some (xs ! i) else None)"

text \<open>
  A property read or a method call on a value that may be \<^verbatim>\<open>undefined\<close> or
  \<^verbatim>\<open>null\<close> (\<^verbatim>\<open>None\<close>).
\<close>

definition member_of :: "'a option \<Rightarrow> error + 'a" where
  "member_of v = (case v of None \<Rightarrow> Inl TypeError | Some x \<Rightarrow> Inr x)"

text \<open>
  The value passed for the options parameter: none (or \<^verbatim>\<open>undefined\<close>), which the
  default parameter \<^verbatim>\<open>options = {}\<close> replaces by the empty object; \<^verbatim>\<open>null\<close>, which it
  does not replace; or an object. The first statement of each operation that takes
  options reads one of their keys, which throws for \<^verbatim>\<open>null\<close>.
\<close>

datatype 'o argument = Omitted | NullValue | Given 'o

definition options_of :: "'o \<Rightarrow> 'o argument \<Rightarrow> error + 'o" where
  "options_of dflt arg =
     (case arg of Omitted \<Rightarrow> Inr dflt | NullValue \<Rightarrow> Inl TypeError | Given options \<Rightarrow> Inr options)"

text \<open>
  \<^verbatim>\<open>detect\<close>. For an undefined \<^verbatim>\<open>ch\<close> the registry has no entry (it has no key
  \<^verbatim>\<open>undefined\<close>), so the \<^verbatim>\<open>else\<close> branch runs and \<^verbatim>\<open>ch.charCodeAt(0)\<close> throws.
\<close>

function detect_for :: "bool \<Rightarrow> jstring \<Rightarrow> nat \<Rightarrow> detection_result \<Rightarrow> error + detection_result" where
  "detect_for inc str i r =
     (if i < length str
      then (case at_index str i of
              None \<Rightarrow> Inl TypeError
            | Some ch \<Rightarrow>
                (case lookup_info ch of
                   Some nfo \<Rightarrow>
                     if \<not> inc \<and> category nfo \<in> set FORMATTING_CATEGORIES
                     then detect_for inc str (i + 1) r
                     else (case record_char ch nfo i r of
                             Inl e \<Rightarrow> Inl e
                           | Inr r' \<Rightarrow> detect_for inc str (i + 1) r')
                 | None \<Rightarrow>
                     if isControl ch
                     then (case record_char ch (controlInfo ch) i r of
                             Inl e \<Rightarrow> Inl e
                           | Inr r' \<Rightarrow> detect_for inc str (i + 1) r')
                     else detect_for inc str (i + 1) r))
      else Inr r)"
  by pat_completeness auto
termination
  by (relation "measure (\<lambda>(inc, str, i, r). length str - i)") auto

definition detect_op :: "jstring \<Rightarrow> detect_options argument \<Rightarrow> error + detection_result" where
  "detect_op str arg =
     (case options_of \<lparr>includeFormatting = None\<rparr> arg of
        Inl e \<Rightarrow> Inl e
      | Inr options \<Rightarrow>
          (let inc = (case includeFormatting options of Some b \<Rightarrow> b | None \<Rightarrow> False)
           in detect_for inc str 0 \<lparr>dtotal = 0, chars = []\<rparr>))"

text \<open>
  \<^verbatim>\<open>detectHomoglyphs\<close>. For an undefined \<^verbatim>\<open>ch\<close> the table has no entry, the condition
  is false and nothing of \<^verbatim>\<open>ch\<close> is read.
\<close>

function homoglyph_for :: "jstring \<Rightarrow> nat \<Rightarrow> homoglyph_result \<Rightarrow> error + homoglyph_result" where
  "homoglyph_for str i r =
     (if i < length str
      then (case at_index str i of
              None \<Rightarrow> homoglyph_for str (i + 1) r
            | Some ch \<Rightarrow>
                (case lookup_homoglyph ch of
                   Some rep \<Rightarrow>
                     if \<not> isExpectedChar str i ch
                     then (let cs = (if map_of (hchars r) ch = None
                                     then AList.update ch
                                            \<lparr>original = ch, hcode = code_label ch,
                                             replacement = rep, hcount = 0\<rparr>
                                            (hchars r)
                                     else hchars r)
                           in case member_of (map_of cs ch) of
                                Inl e \<Rightarrow> Inl e
                              | Inr entry \<Rightarrow>
                                  homoglyph_for str (i + 1)
                                    \<lparr>htotal = htotal r + 1,
                                     hchars = AList.update ch (entry\<lparr>hcount := hcount entry + 1\<rparr>) cs\<rparr>)
                     else homoglyph_for str (i + 1) r
                 | None \<Rightarrow> homoglyph_for str (i + 1) r))
      else Inr r)"
  by pat_completeness auto
termination
  by (relation "measure (\<lambda>(str, i, r). length str - i)") auto

definition detectHomoglyphs_op :: "jstring \<Rightarrow> error + homoglyph_result" where
  "detectHomoglyphs_op str = homoglyph_for str 0 \<lparr>htotal = 0, hchars = []\<rparr>"

text \<open>
  \<^verbatim>\<open>text.match(regex)\<close> with the \<^verbatim>\<open>g\<close> flag is \<^verbatim>\<open>null\<close> when nothing matches, and the
  array of the matches otherwise; the array is read for its length only, which stands
  for it here.
\<close>

definition match_result :: "nat \<Rightarrow> nat option" where
  "match_result n = (if n = 0 then None else Some n)"

text \<open>\<^verbatim>\<open>ch.replace(/[.*+?^${}()|[\]\\]/g, '\\$&')\<close>: a backslash before each of these.\<close>

definition REGEXP_SPECIALS :: "u16 list" where
  "REGEXP_SPECIALS = [0x002E, 0x002A, 0x002B, 0x003F, 0x005E, 0x0024, 0x007B, 0x007D,
     0x0028, 0x0029, 0x007C, 0x005B, 0x005D, 0x005C]"

definition escapeRegExp :: "jstring \<Rightarrow> jstring" where
  "escapeRegExp s = concat (map (\<lambda>c. if c \<in> set REGEXP_SPECIALS then [0x005C, c] else [c]) s)"

text \<open>
  \<^verbatim>\<open>new RegExp(pattern, 'g')\<close> for the patterns that can be told to match one unit
  literally: a single unit that is none of the fourteen above, or one of them after a
  backslash. The result is that unit. Every other pattern is counted as refused,
  whether or not the runtime can parse it, so that the model throws at least where the
  runtime does.
\<close>

definition new_RegExp :: "jstring \<Rightarrow> error + u16" where
  "new_RegExp pattern =
     (case pattern of
        [c] \<Rightarrow> if c \<in> set REGEXP_SPECIALS then Inl SyntaxError else Inr c
      | [b, c] \<Rightarrow> if b = 0x005C \<and> c \<in> set REGEXP_SPECIALS then Inr c else Inl SyntaxError
      | _ \<Rightarrow> Inl SyntaxError)"

fun special_space_for :: "(u16 \<times> char_info) list \<Rightarrow> jstring \<Rightarrow> ws_result \<Rightarrow> error + ws_result" where
  "special_space_for [] str r = Inr r"
| "special_space_for ((ch, nfo) # others) str r =
     (case new_RegExp (escapeRegExp [ch]) of
        Inl e \<Rightarrow> Inl e
      | Inr u \<Rightarrow>
          (let matches = match_result (count_list str u)
           in if matches \<noteq> None
              then (case member_of matches of
                      Inl e \<Rightarrow> Inl e
                    | Inr len \<Rightarrow>
                        special_space_for others str
                          \<lparr>wtotal = wtotal r + len,
                           issues = issues r @ [\<lparr>itype = SpecialSpace, icount = len,
                                                 description = name nfo @ '' ('' @ code nfo @ '')''\<rparr>]\<rparr>)
              else special_space_for others str r))"

text \<open>One of the first two checks: \<^verbatim>\<open>if (matches) { const count = matches.length; ... }\<close>\<close>

definition count_issue :: "nat option \<Rightarrow> issue_type \<Rightarrow> string \<Rightarrow> ws_result \<Rightarrow> error + ws_result" where
  "count_issue matches kind about r =
     (if matches \<noteq> None
      then (case member_of matches of
              Inl e \<Rightarrow> Inl e
            | Inr cnt \<Rightarrow>
                Inr \<lparr>wtotal = wtotal r + cnt,
                     issues = issues r @ [\<lparr>itype = kind, icount = cnt, description = about\<rparr>]\<rparr>)
      else Inr r)"

definition detectWhitespaceAnomalies_op :: "jstring \<Rightarrow> error + ws_result" where
  "detectWhitespaceAnomalies_op str =
     (let r0 = \<lparr>wtotal = 0, issues = []\<rparr>;
          trailingMatches = match_result (count_trailing str)
      in case count_issue trailingMatches TrailingSpace ''Trailing spaces on lines'' r0 of
           Inl e \<Rightarrow> Inl e
         | Inr r1 \<Rightarrow>
             (let doubleSpaceMatches = match_result (count_double None str)
              in case count_issue doubleSpaceMatches DoubleSpace ''Multiple consecutive spaces'' r1 of
                   Inl e \<Rightarrow> Inl e
                 | Inr r2 \<Rightarrow>
                     (let hasCRLF = includes_crlf str;
                          hasLF = test_bare_lf None str;
                          r3 = (if hasCRLF \<and> hasLF
                                then \<lparr>wtotal = wtotal r2 + 1,
                                      issues = issues r2 @ [\<lparr>itype = MixedEndings, icount = 1,
                                        description = ''Mixed line endings (CRLF + LF)''\<rparr>]\<rparr>
                                else r2)
                      in special_space_for spaceChars str r3)))"

text \<open>
  \<^verbatim>\<open>str.normalize(form)\<close>: the runtime knows four forms by name and throws a
  RangeError for every other argument. Its normalization function for each form is the
  argument \<^verbatim>\<open>unorm\<close>; the function \<^verbatim>\<open>nfc\<close> that \<^verbatim>\<open>clean\<close> takes above is
  \<^verbatim>\<open>unorm NFC\<close>.
\<close>

datatype normal_form = NFC | NFD | NFKC | NFKD

definition form_of :: "string \<Rightarrow> normal_form option" where
  "form_of form =
     (if form = ''NFC'' then Some NFC
      else if form = ''NFD'' then Some NFD
      else if form = ''NFKC'' then Some NFKC
      else if form = ''NFKD'' then Some NFKD
      else None)"

definition js_normalize :: "(normal_form \<Rightarrow> jstring \<Rightarrow> jstring) \<Rightarrow> string \<Rightarrow> jstring \<Rightarrow> error + jstring" where
  "js_normalize unorm form s =
     (case form_of form of None \<Rightarrow> Inl RangeError | Some f \<Rightarrow> Inr (unorm f s))"

definition clean_op :: "(normal_form \<Rightarrow> jstring \<Rightarrow> jstring) \<Rightarrow> jstring \<Rightarrow> clean_options argument
    \<Rightarrow> error + jstring" where
  "clean_op unorm str arg =
     (case options_of default_options arg of
        Inl e \<Rightarrow> Inl e
      | Inr options \<Rightarrow>
          (let result0 = str;
               result1 = (if truthy (stripHTML options) then strip_html result0 else result0);
               result2 = filter (\<lambda>c. \<not> INVISIBLE_REGEX c) result1;
               result3 = replace_global SUPPLEMENTARY_REGEX [] result2
           in case (if not_false (normalize options) then js_normalize unorm ''NFC'' result3
                    else Inr result3) of
                Inl e \<Rightarrow> Inl e
              | Inr result4 \<Rightarrow>
                  (let result5 = (if truthy (fixHomoglyphs options)
                                  then map (\<lambda>ch. if HOMOGLYPH_REGEX ch then fix_homoglyph result4 ch else ch)
                                         result4
                                  else result4);
                       result6 = replace_global match_trailing [] result5
                   in Inr (replace_global match_spaces [0x0020] result6))))"

text \<open>
  \<^verbatim>\<open>revealHTML\<close>. The loop body calls \<^verbatim>\<open>ch.charCodeAt(0)\<close> for every \<^verbatim>\<open>ch\<close>, right
  after the lookup of \<^verbatim>\<open>ch\<close> in the registry.
\<close>

function reveal_for :: "bool \<Rightarrow> jstring \<Rightarrow> nat \<Rightarrow> jstring list \<Rightarrow> jstring \<Rightarrow> error + jstring list \<times> jstring" where
  "reveal_for inc str i parts visibleBuffer =
     (if i < length str
      then (case member_of (at_index str i) of
              Inl e \<Rightarrow> Inl e
            | Inr ch \<Rightarrow>
                if shouldAnnotate inc ch
                then (let parts1 = (if visibleBuffer \<noteq> [] then parts @ [visible_span visibleBuffer]
                                    else parts);
                          label = (case lookup_info ch of Some nfo \<Rightarrow> code nfo
                                   | None \<Rightarrow> code_label ch);
                          charName = (case lookup_info ch of Some nfo \<Rightarrow> name nfo
                                      | None \<Rightarrow> ''Control Character'');
                          cssClass = (case lookup_info ch of
                                        Some nfo \<Rightarrow> if category nfo \<in> set FORMATTING_CATEGORIES
                                                    then ''char-formatting'' else ''char-hidden''
                                      | None \<Rightarrow> ''char-hidden'')
                      in reveal_for inc str (i + 1)
                           (parts1 @ [annotation_span cssClass charName label]) [])
                else reveal_for inc str (i + 1) parts (visibleBuffer @ [ch]))
      else Inr (parts, visibleBuffer))"
  by pat_completeness auto
termination
  by (relation "measure (\<lambda>(inc, str, i, parts, visibleBuffer). length str - i)") auto

definition revealHTML_op :: "jstring \<Rightarrow> detect_options argument \<Rightarrow> error + jstring" where
  "revealHTML_op str arg =
     (case options_of \<lparr>includeFormatting = None\<rparr> arg of
        Inl e \<Rightarrow> Inl e
      | Inr options \<Rightarrow>
          (let inc = not_false (includeFormatting options)
           in case reveal_for inc str 0 [] [] of
                Inl e \<Rightarrow> Inl e
              | Inr (parts, visibleBuffer) \<Rightarrow>
                  Inr (concat (if visibleBuffer \<noteq> [] then parts @ [visible_span visibleBuffer]
                               else parts))))"

text \<open>
  \<^verbatim>\<open>inject\<close>. An undefined \<^verbatim>\<open>words[i]\<close> is appended as the word \<^verbatim>\<open>undefined\<close>, and
  reading its length throws.
\<close>

function inject_for :: "(nat \<Rightarrow> real) \<Rightarrow> jstring \<Rightarrow> jstring list \<Rightarrow> nat \<Rightarrow> jstring \<times> nat \<times> nat
    \<Rightarrow> error + jstring \<times> nat \<times> nat" where
  "inject_for rand cs words i (result, cnt, k) =
     (if i < length words
      then (let word = at_index words i;
                result1 = result @ (case word of Some w \<Rightarrow> w | None \<Rightarrow> utf16 ''undefined'');
                (result2, cnt2, k2) =
                  (if i < length words - 1
                   then (if rand k < 0.6
                         then (result1 @ pick_char cs (rand (k + 1)), cnt + 1, k + 2)
                         else (result1, cnt, k + 1))
                   else (result1, cnt, k))
            in case member_of word of
                 Inl e \<Rightarrow> Inl e
               | Inr w \<Rightarrow>
                   (let (result3, cnt3, k3) =
                          (if 4 < length w
                           then (if rand k2 < 0.3
                                 then (let pos = \<lfloor>rand (k2 + 1) * real (length w - 2)\<rfloor> + 1;
                                           char = pick_char cs (rand (k2 + 2));
                                           cut = int (length result2) - int (length w) + pos
                                       in (slice_to result2 cut @ char @ slice_from result2 cut,
                                           cnt2 + 1, k2 + 3))
                                 else (result2, cnt2, k2 + 1))
                           else (result2, cnt2, k2))
                    in inject_for rand cs words (i + 1) (result3, cnt3, k3)))
      else Inr (result, cnt, k))"
  by pat_completeness auto
termination
  by (relation "measure (\<lambda>(rand, cs, words, i, st). length words - i)") auto

definition inject_op :: "(nat \<Rightarrow> real) \<Rightarrow> jstring \<Rightarrow> inject_types argument \<Rightarrow> error + inject_result" where
  "inject_op rand str arg =
     (case options_of \<lparr>zwsp = None, zwnj = None, bom = None, invisSep = None\<rparr> arg of
        Inl e \<Rightarrow> Inl e
      | Inr types \<Rightarrow>
          (let cs = (if truthy (zwsp types) then [0x200B] else [])
                  @ (if truthy (zwnj types) then [0x200C] else [])
                  @ (if truthy (bom types) then [0xFEFF] else [])
                  @ (if truthy (invisSep types) then [0x2061, 0x2062, 0x2063, 0x2064] else [])
           in if length cs = 0 then Inr \<lparr>injected_text = str, injected_count = 0\<rparr>
              else (let words = split_ws [] str
                    in case inject_for rand cs words 0 ([], 0, 0) of
                         Inl e \<Rightarrow> Inl e
                       | Inr (result, cnt, k) \<Rightarrow> Inr \<lparr>injected_text = result, injected_count = cnt\<rparr>)))"

text \<open>
  \<^verbatim>\<open>getCharInfo\<close> is one property read on the registry, an object that always exists,
  followed by \<^verbatim>\<open>||\<close>: it has no step that can throw.
\<close>

definition getCharInfo_op :: "jstring \<Rightarrow> error + char_info_result" where
  "getCharInfo_op ch =
     (case ch of
        [c] \<Rightarrow> (case lookup_info c of Some nfo \<Rightarrow> Inr (Descriptor nfo) | None \<Rightarrow> Inr Null)
      | _ \<Rightarrow> if ch \<in> set (map utf16 OBJECT_PROTOTYPE_KEYS) then Inr Inherited else Inr Null)"

datatype request =
  Detect jstring "detect_options argument"
  | DetectHomoglyphs jstring
  | DetectWhitespaceAnomalies jstring
  | Clean jstring "clean_options argument"
  | RevealHTML jstring "detect_options argument"
  | Inject jstring "inject_types argument"
  | GetCharInfo jstring

datatype response =
  Detection detection_result
  | Homoglyphs homoglyph_result
  | Whitespace ws_result
  | Cleaned jstring
  | Revealed jstring
  | Injected inject_result
  | CharInfo char_info_result

text \<open>
  A call of a public operation, given the two things the runtime supplies: its
  normalization functions and the successive values of \<^verbatim>\<open>Math.random()\<close>.
\<close>

fun call :: "(normal_form \<Rightarrow> jstring \<Rightarrow> jstring) \<Rightarrow> (nat \<Rightarrow> real) \<Rightarrow> request \<Rightarrow> error + response" where
  "call unorm rand (Detect str arg) =
     (case detect_op str arg of Inl e \<Rightarrow> Inl e | Inr r \<Rightarrow> Inr (Detection r))"
| "call unorm rand (DetectHomoglyphs str) =
     (case detectHomoglyphs_op str of Inl e \<Rightarrow> Inl e | Inr r \<Rightarrow> Inr (Homoglyphs r))"
| "call unorm rand (DetectWhitespaceAnomalies str) =
     (case detectWhitespaceAnomalies_op str of Inl e \<Rightarrow> Inl e | Inr r \<Rightarrow> Inr (Whitespace r))"
| "call unorm rand (Clean str arg) =
     (case clean_op unorm str arg of Inl e \<Rightarrow> Inl e | Inr r \<Rightarrow> Inr (Cleaned r))"
| "call unorm rand (RevealHTML str arg) =
     (case revealHTML_op str arg of Inl e \<Rightarrow> Inl e | Inr r \<Rightarrow> Inr (Revealed r))"
| "call unorm rand (Inject str arg) =
     (case inject_op rand str arg of Inl e \<Rightarrow> Inl e | Inr r \<Rightarrow> Inr (Injected r))"
| "call unorm rand (GetCharInfo ch) =
     (case getCharInfo_op ch of Inl e \<Rightarrow> Inl e | Inr r \<Rightarrow> Inr (CharInfo r))"

text \<open>The options of a request are an object, or were left out.\<close>

fun options_object :: "request \<Rightarrow> bool" where
  "options_object (Detect str arg) = (arg \<noteq> NullValue)"
| "options_object (Clean str arg) = (arg \<noteq> NullValue)"
| "options_object (RevealHTML str arg) = (arg \<noteq> NullValue)"
| "options_object (Inject str arg) = (arg \<noteq> NullValue)"
| "options_object _ = True"


subsection \<open>Well-formed UTF-16\<close>

definition isHighSurrogate :: "u16 \<Rightarrow> bool" where
  "isHighSurrogate c = (0xD800 \<le> c \<and> c \<le> 0xDBFF)"

definition isLowSurrogate :: "u16 \<Rightarrow> bool" where
  "isLowSurrogate c = (0xDC00 \<le> c \<and> c \<le> 0xDFFF)"

text \<open>
  A text has no unpaired surrogate when every high surrogate is immediately followed by
  a low surrogate and every low surrogate immediately follows a high one. The flag says
  that the previous unit was a high surrogate, which the current unit has to complete.
\<close>

fun paired :: "bool \<Rightarrow> jstring \<Rightarrow> bool" where
  "paired expect_low [] = (\<not> expect_low)"
| "paired expect_low (c # cs) =
     (if expect_low then isLowSurrogate c \<and> paired False cs
      else if isHighSurrogate c then paired True cs
      else \<not> isLowSurrogate c \<and> paired False cs)"

definition well_formed :: "jstring \<Rightarrow> bool" where
  "well_formed s = paired False s"

subsection \<open>A value table of NFC\<close>

text \<open>
  The values of \<^verbatim>\<open>s.normalize('NFC')\<close> on texts over ASCII and the Devanagari letter
  QA: an ASCII unit is its own normal form, and U+0958 has the canonical decomposition
  U+0915 U+093C and is excluded from composition (CompositionExclusions.txt of the
  Unicode Character Database), so its normal form is the two units. The function leaves
  every other unit as it is, which is what NFC does to a character that has no
  decomposition and takes part in no composition. The concrete evaluations below pass
  this function where \<^verbatim>\<open>clean\<close> expects the runtime's.
\<close>

definition nfc_ascii_qa :: "jstring \<Rightarrow> jstring" where
  "nfc_ascii_qa s = concat (map (\<lambda>c. if c = 0x0958 then [0x0915, 0x093C] else [c]) s)"

section \<open>Notions used in the properties\<close>

subsection \<open>The stages of clean\<close>

text \<open>
  The text after the first three steps (HTML stripping, invisible characters,
  supplementary plane), which is what the normalization step receives, and the steps
  after normalization.
\<close>

definition stripped :: "jstring \<Rightarrow> clean_options \<Rightarrow> jstring" where
  "stripped str options =
     replace_global SUPPLEMENTARY_REGEX []
       (filter (\<lambda>c. \<not> INVISIBLE_REGEX c)
          (if truthy (stripHTML options) then strip_html str else str))"

definition finish :: "jstring \<Rightarrow> clean_options \<Rightarrow> jstring" where
  "finish result4 options =
     replace_global match_spaces [0x0020]
       (replace_global match_trailing []
          (if truthy (fixHomoglyphs options)
           then map (\<lambda>ch. if HOMOGLYPH_REGEX ch then fix_homoglyph result4 ch else ch) result4
           else result4))"

text \<open>The homoglyph step on one unit.\<close>

definition fold_unit :: "jstring \<Rightarrow> u16 \<Rightarrow> u16" where
  "fold_unit r ch = (if HOMOGLYPH_REGEX ch then fix_homoglyph r ch else ch)"

text \<open>
  The last two steps of \<^verbatim>\<open>clean\<close>: trailing white space removed from every line, then
  every run of two or more spaces collapsed into one.
\<close>

definition tidy :: "jstring \<Rightarrow> jstring" where
  "tidy s = replace_global match_spaces [0x0020] (replace_global match_trailing [] s)"

subsection \<open>Texts with nothing to strip\<close>

text \<open>A pattern matches at no position of a text.\<close>

fun no_match :: "(jstring \<Rightarrow> nat option) \<Rightarrow> jstring \<Rightarrow> bool" where
  "no_match m [] = True"
| "no_match m (c # cs) = (m (c # cs) = None \<and> no_match m cs)"

text \<open>The low surrogates of the two ranges of \<^verbatim>\<open>SUPPLEMENTARY_REGEX\<close>.\<close>

definition in_supplementary_range :: "u16 \<Rightarrow> bool" where
  "in_supplementary_range b = ((0xDC01 \<le> b \<and> b \<le> 0xDC7F) \<or> (0xDD00 \<le> b \<and> b \<le> 0xDDEF))"

text \<open>
  A text with nothing for the stripping steps to remove: no unit of the class of
  \<^verbatim>\<open>INVISIBLE_REGEX\<close>, and no position where \<^verbatim>\<open>SUPPLEMENTARY_REGEX\<close> matches.
\<close>

definition hidden_free :: "jstring \<Rightarrow> bool" where
  "hidden_free s = (list_all (\<lambda>c. \<not> INVISIBLE_REGEX c) s \<and> no_match SUPPLEMENTARY_REGEX s)"

text \<open>The text does not start with a low surrogate of the supplementary ranges.\<close>

definition head_ok :: "jstring \<Rightarrow> bool" where
  "head_ok s = (case s of [] \<Rightarrow> True | b # _ \<Rightarrow> \<not> in_supplementary_range b)"

text \<open>The text does not start with a space.\<close>

definition no_space_head :: "jstring \<Rightarrow> bool" where
  "no_space_head s = (case s of [] \<Rightarrow> True | d # _ \<Rightarrow> d \<noteq> 0x0020)"

subsection \<open>Surrogates\<close>

text \<open>A unit that is one half of a surrogate pair.\<close>

definition isSurrogate :: "u16 \<Rightarrow> bool" where
  "isSurrogate c = (isHighSurrogate c \<or> isLowSurrogate c)"

subsection \<open>Reading the annotated markup back\<close>

definition starts_with :: "jstring \<Rightarrow> jstring \<Rightarrow> bool" where
  "starts_with p s = (take (length p) s = p)"

text \<open>
  The markup as a sequence of \<^verbatim>\<open>span\<close> elements, each with the value of its
  \<^verbatim>\<open>class\<close> attribute and its content; \<^verbatim>\<open>None\<close> when the text is not such a
  sequence.
\<close>

function spans :: "jstring \<Rightarrow> (jstring \<times> jstring) list option" where
  \<open>spans s =
     (if s = [] then Some []
      else if \<not> starts_with (utf16 ''<span class="'') s then None
      else (let s1 = drop 13 s;
                cls = takeWhile (\<lambda>d. d \<noteq> 0x0022) s1
            in case dropWhile (\<lambda>d. d \<noteq> 0x003E) s1 of
                 [] \<Rightarrow> None
               | gt # s3 \<Rightarrow>
                   (let content = takeWhile (\<lambda>d. d \<noteq> 0x003C) s3;
                        s4 = dropWhile (\<lambda>d. d \<noteq> 0x003C) s3
                    in if starts_with (utf16 ''</span>'') s4
                       then map_option ((#) (cls, content)) (spans (drop 7 s4))
                       else None)))\<close>
  by pat_completeness auto

termination
proof (relation "measure length")
  show "wf (measure length)" by simp
next
  fix s :: jstring and s1 cls gt s3 content s4
  assume a: "s1 = drop 13 s" "dropWhile (\<lambda>d. d \<noteq> 0x003E) s1 = gt # s3"
    "s4 = dropWhile (\<lambda>d. d \<noteq> 0x003C) s3"
  have "length s4 \<le> length s3" unfolding a(3) by (rule length_dropWhile_le)
  moreover have "length (gt # s3) \<le> length s1" unfolding a(2) [symmetric] by (rule length_dropWhile_le)
  moreover have "length s1 \<le> length s" unfolding a(1) by simp
  ultimately have "length (drop 7 s4) < length s" by simp
  then show "(drop 7 s4, s) \<in> measure length" by simp
qed

declare spans.simps [simp del]

text \<open>The contents of the visible-run spans, the annotation spans removed.\<close>

definition visible_content :: "(jstring \<times> jstring) list \<Rightarrow> jstring" where
  "visible_content sp = concat (map snd (filter (\<lambda>(cls, content). cls = utf16 ''char-visible'') sp))"

text \<open>Undoing \<^verbatim>\<open>escapeHTML\<close>: each of its five entities read back as its character.\<close>

function unescapeHTML :: "jstring \<Rightarrow> jstring" where
  "unescapeHTML [] = []"
| \<open>unescapeHTML (c # cs) =
     (if starts_with (utf16 ''&amp;'') (c # cs) then 0x0026 # unescapeHTML (drop 4 cs)
      else if starts_with (utf16 ''&lt;'') (c # cs) then 0x003C # unescapeHTML (drop 3 cs)
      else if starts_with (utf16 ''&gt;'') (c # cs) then 0x003E # unescapeHTML (drop 3 cs)
      else if starts_with (utf16 ''&quot;'') (c # cs) then 0x0022 # unescapeHTML (drop 5 cs)
      else if starts_with (utf16 ''&#039;'') (c # cs) then 0x0027 # unescapeHTML (drop 5 cs)
      else c # unescapeHTML cs)\<close>
  by pat_completeness auto

termination
  by (relation "measure length") (auto simp: less_Suc_eq_le)

text \<open>What \<^verbatim>\<open>escapeHTML\<close> makes of one unit.\<close>

definition escape_unit :: "u16 \<Rightarrow> jstring" where
  \<open>escape_unit c =
     (if c = 0x0026 then utf16 ''&amp;''
      else if c = 0x003C then utf16 ''&lt;''
      else if c = 0x003E then utf16 ''&gt;''
      else if c = 0x0022 then utf16 ''&quot;''
      else if c = 0x0027 then utf16 ''&#039;''
      else [c])\<close>

text \<open>What \<^verbatim>\<open>revealHTML\<close> does at the end of the loop.\<close>

definition flush :: "jstring list \<times> jstring \<Rightarrow> jstring" where
  "flush st = (case st of (parts, visibleBuffer) \<Rightarrow>
     concat (if visibleBuffer \<noteq> [] then parts @ [visible_span visibleBuffer] else parts))"

section \<open>Properties\<close>

subsection \<open>The homoglyph scanner\<close>

lemma isExpectedChar_indep: "isExpectedChar t i c = isExpectedChar [] 0 c"
  by (simp add: isExpectedChar_def)

lemma homoglyph_loop_inv:
  "\<exists>r'. homoglyph_loop t rest i r = Inr r'
     \<and> htotal r' = htotal r + length (filter flagged rest)
     \<and> (\<forall>c. map_option hcount (map_of (hchars r') c) =
           (if flagged c \<and> c \<in> set rest
            then Some (count_list rest c + (case map_of (hchars r) c of None \<Rightarrow> 0 | Some e \<Rightarrow> hcount e))
            else map_option hcount (map_of (hchars r) c)))"
proof (induction rest arbitrary: i r)
  case Nil
  then show ?case by simp
next
  case (Cons ch rest)
  show ?case
  proof (cases "flagged ch")
    case False
    then have step: "homoglyph_loop t (ch # rest) i r = homoglyph_loop t rest (i + 1) r"
      by (auto simp: flagged_def isExpectedChar_indep [of t i] split: option.splits)
    from Cons.IH [of "i + 1" r] obtain r' where
      r': "homoglyph_loop t rest (i + 1) r = Inr r'"
      and tot: "htotal r' = htotal r + length (filter flagged rest)"
      and cnt: "\<And>c. map_option hcount (map_of (hchars r') c) =
           (if flagged c \<and> c \<in> set rest
            then Some (count_list rest c + (case map_of (hchars r) c of None \<Rightarrow> 0 | Some e \<Rightarrow> hcount e))
            else map_option hcount (map_of (hchars r) c))"
      by blast
    have "htotal r' = htotal r + length (filter flagged (ch # rest))"
      using tot False by simp
    moreover have "map_option hcount (map_of (hchars r') c) =
           (if flagged c \<and> c \<in> set (ch # rest)
            then Some (count_list (ch # rest) c + (case map_of (hchars r) c of None \<Rightarrow> 0 | Some e \<Rightarrow> hcount e))
            else map_option hcount (map_of (hchars r) c))" for c
      using cnt [of c] False by auto
    ultimately show ?thesis
      unfolding step using r' by blast
  next
    case True
    then obtain rep where rep: "lookup_homoglyph ch = Some rep" and ne: "\<not> isExpectedChar t i ch"
      by (auto simp: flagged_def isExpectedChar_indep [of t i])
    define cs where "cs = (if map_of (hchars r) ch = None
                          then AList.update ch
                                 \<lparr>original = ch, hcode = code_label ch, replacement = rep, hcount = 0\<rparr>
                                 (hchars r)
                          else hchars r)"
    obtain entry where entry: "map_of cs ch = Some entry"
      and ecount: "hcount entry = (case map_of (hchars r) ch of None \<Rightarrow> 0 | Some e \<Rightarrow> hcount e)"
      by (cases "map_of (hchars r) ch") (auto simp: cs_def update_conv')
    define r1 where "r1 = \<lparr>htotal = htotal r + 1,
                          hchars = AList.update ch (entry\<lparr>hcount := hcount entry + 1\<rparr>) cs\<rparr>"
    have step: "homoglyph_loop t (ch # rest) i r = homoglyph_loop t rest (i + 1) r1"
      using rep ne entry by (simp add: cs_def [symmetric] r1_def Let_def)
    have m1: "map_option hcount (map_of (hchars r1) c) =
        (if c = ch then Some (Suc (case map_of (hchars r) ch of None \<Rightarrow> 0 | Some e \<Rightarrow> hcount e))
         else map_option hcount (map_of (hchars r) c))" for c
      using entry ecount by (auto simp: r1_def update_conv' cs_def)
    from Cons.IH [of "i + 1" r1] obtain r' where
      r': "homoglyph_loop t rest (i + 1) r1 = Inr r'"
      and tot: "htotal r' = htotal r1 + length (filter flagged rest)"
      and cnt: "\<And>c. map_option hcount (map_of (hchars r') c) =
           (if flagged c \<and> c \<in> set rest
            then Some (count_list rest c + (case map_of (hchars r1) c of None \<Rightarrow> 0 | Some e \<Rightarrow> hcount e))
            else map_option hcount (map_of (hchars r1) c))"
      by blast
    have "htotal r' = htotal r + length (filter flagged (ch # rest))"
      using tot True by (simp add: r1_def)
    moreover have "map_option hcount (map_of (hchars r') c) =
           (if flagged c \<and> c \<in> set (ch # rest)
            then Some (count_list (ch # rest) c + (case map_of (hchars r) c of None \<Rightarrow> 0 | Some e \<Rightarrow> hcount e))
            else map_option hcount (map_of (hchars r) c))" for c
      using cnt [of c] m1 [of c] True
      by (cases "map_of (hchars r1) c"; cases "map_of (hchars r) c") (auto split: if_splits)
    ultimately show ?thesis
      unfolding step using r' by blast
  qed
qed


text \<open>
  No key occurs twice in the table, so reading the first entry of a key, as \<^verbatim>\<open>map_of\<close>
  does, and reading the last, as a JavaScript object literal does, are the same.
\<close>

lemma distinct_HOMOGLYPHS: "distinct (map fst HOMOGLYPHS)"
  by (simp add: HOMOGLYPHS_def)

lemma flagged_iff: "flagged c \<longleftrightarrow> c \<in> set (map fst HOMOGLYPHS) \<and> c \<notin> set EXEMPTED"
proof -
  have "lookup_homoglyph c \<noteq> None \<longleftrightarrow> c \<in> set (map fst HOMOGLYPHS)"
    by (simp add: lookup_homoglyph_def map_of_eq_None_iff)
  moreover have "isExpectedChar [] 0 c \<longleftrightarrow> c \<in> set EXEMPTED"
    by (simp add: isExpectedChar_def EXEMPTED_def)
  ultimately show ?thesis by (simp add: flagged_def)
qed

text \<open>
  Claim C6. \<^verbatim>\<open>detectHomoglyphs\<close> returns a result in which none of the seven exempted
  characters has an entry, every other key of the homoglyph table that occurs in the
  text has an entry whose count is the number of its occurrences in the text, and the
  total is the number of occurrences of such keys: whether an occurrence is flagged
  depends on the character alone.
\<close>

theorem detectHomoglyphs_exemption:
  "\<exists>r. detectHomoglyphs str = Inr r
     \<and> (\<forall>c. c \<in> set EXEMPTED \<longrightarrow> map_of (hchars r) c = None)
     \<and> (\<forall>c. c \<in> set (map fst HOMOGLYPHS) \<and> c \<notin> set EXEMPTED \<and> c \<in> set str
            \<longrightarrow> map_option hcount (map_of (hchars r) c) = Some (count_list str c))
     \<and> htotal r = length (filter (\<lambda>c. c \<in> set (map fst HOMOGLYPHS) \<and> c \<notin> set EXEMPTED) str)"
proof -
  from homoglyph_loop_inv [of str str 0 "\<lparr>htotal = 0, hchars = []\<rparr>"]
  obtain r where r: "detectHomoglyphs str = Inr r"
    and tot: "htotal r = length (filter flagged str)"
    and cnt: "\<And>c. map_option hcount (map_of (hchars r) c) =
                (if flagged c \<and> c \<in> set str then Some (count_list str c) else None)"
    by (auto simp: detectHomoglyphs_def)
  have "map_of (hchars r) c = None" if "c \<in> set EXEMPTED" for c
    using cnt [of c] that by (simp add: flagged_iff)
  moreover have "map_option hcount (map_of (hchars r) c) = Some (count_list str c)"
    if "c \<in> set (map fst HOMOGLYPHS) \<and> c \<notin> set EXEMPTED \<and> c \<in> set str" for c
    using cnt [of c] that by (simp add: flagged_iff)
  moreover have "htotal r = length (filter (\<lambda>c. c \<in> set (map fst HOMOGLYPHS) \<and> c \<notin> set EXEMPTED) str)"
    using tot flagged_iff by (metis (mono_tags, lifting) filter_cong)
  ultimately show ?thesis using r by blast
qed

theorem detectHomoglyphs_exemption_witness:
  "\<exists>r. detectHomoglyphs [0x48, 0x0435, 0x2014, 0x0435] = Inr r
     \<and> map_of (hchars r) 0x2014 = None
     \<and> map_option hcount (map_of (hchars r) 0x0435) = Some 2
     \<and> htotal r = 2"
proof -
  let ?t = "[0x48, 0x0435, 0x2014, 0x0435] :: jstring"
  from detectHomoglyphs_exemption [of ?t]
  obtain r where r: "detectHomoglyphs ?t = Inr r"
    and ex: "\<forall>c. c \<in> set EXEMPTED \<longrightarrow> map_of (hchars r) c = None"
    and fl: "\<forall>c. c \<in> set (map fst HOMOGLYPHS) \<and> c \<notin> set EXEMPTED \<and> c \<in> set ?t
            \<longrightarrow> map_option hcount (map_of (hchars r) c) = Some (count_list ?t c)"
    and tot: "htotal r = length (filter (\<lambda>c. c \<in> set (map fst HOMOGLYPHS) \<and> c \<notin> set EXEMPTED) ?t)"
    by blast
  have "(0x2014 :: u16) \<in> set EXEMPTED"
    by (simp add: EXEMPTED_def)
  with ex have a: "map_of (hchars r) 0x2014 = None" by blast
  have "(0x0435 :: u16) \<in> set (map fst HOMOGLYPHS) \<and> (0x0435 :: u16) \<notin> set EXEMPTED \<and> 0x0435 \<in> set ?t"
    by (simp add: HOMOGLYPHS_def EXEMPTED_def)
  with fl have "map_option hcount (map_of (hchars r) 0x0435) = Some (count_list ?t 0x0435)"
    by blast
  moreover have "count_list ?t 0x0435 = 2" by simp
  ultimately have b: "map_option hcount (map_of (hchars r) 0x0435) = Some 2"
    by (simp only:)
  have c: "htotal r = 2"
    unfolding tot by (simp add: HOMOGLYPHS_def EXEMPTED_def)
  from r a b c show ?thesis by blast
qed

subsection \<open>The detector\<close>

text \<open>
  Claim C5 (the code does not do this). The text consisting of the Tag character
  U+E0001, the surrogate pair DB40 DC01, holds a character that \<^verbatim>\<open>clean\<close> removes
  through \<^verbatim>\<open>SUPPLEMENTARY_REGEX\<close>; \<^verbatim>\<open>detect\<close> looks at each code unit alone, finds
  neither in the registry nor in the control ranges, and reports nothing, whatever
  \<^verbatim>\<open>includeFormatting\<close> is.
\<close>

theorem detect_misses_tag_character:
  "detect [0xDB40, 0xDC01] \<lparr>includeFormatting = None\<rparr> = Inr \<lparr>dtotal = 0, chars = []\<rparr>
   \<and> detect [0xDB40, 0xDC01] \<lparr>includeFormatting = Some True\<rparr> = Inr \<lparr>dtotal = 0, chars = []\<rparr>"
  by (simp add: detect_def lookup_info_def INVISIBLE_CHARS_def isControl_def)


subsection \<open>The whitespace anomaly analyzer\<close>

lemma includes_crlf_iff: "includes_crlf s \<longleftrightarrow> has_crlf_terminator s"
proof (induction s rule: includes_crlf.induct)
  case (1 a b rest)
  have "has_crlf_terminator (a # b # rest) \<longleftrightarrow> (a = 0x000D \<and> b = 0x000A) \<or> has_crlf_terminator (b # rest)"
  proof
    assume "has_crlf_terminator (a # b # rest)"
    then obtain i where i: "Suc i < length (a # b # rest)" "(a # b # rest) ! i = 0x000D"
        "(a # b # rest) ! Suc i = 0x000A"
      by (auto simp: has_crlf_terminator_def)
    show "(a = 0x000D \<and> b = 0x000A) \<or> has_crlf_terminator (b # rest)"
    proof (cases i)
      case 0
      with i show ?thesis by simp
    next
      case (Suc k)
      with i have "Suc k < length (b # rest) \<and> (b # rest) ! k = 0x000D \<and> (b # rest) ! Suc k = 0x000A"
        by simp
      then show ?thesis unfolding has_crlf_terminator_def by blast
    qed
  next
    assume "(a = 0x000D \<and> b = 0x000A) \<or> has_crlf_terminator (b # rest)"
    then show "has_crlf_terminator (a # b # rest)"
    proof
      assume "a = 0x000D \<and> b = 0x000A"
      then have "Suc 0 < length (a # b # rest) \<and> (a # b # rest) ! 0 = 0x000D \<and> (a # b # rest) ! Suc 0 = 0x000A"
        by simp
      then show ?thesis unfolding has_crlf_terminator_def by blast
    next
      assume "has_crlf_terminator (b # rest)"
      then obtain i where "Suc i < length (b # rest)" "(b # rest) ! i = 0x000D" "(b # rest) ! Suc i = 0x000A"
        by (auto simp: has_crlf_terminator_def)
      then have "Suc (Suc i) < length (a # b # rest) \<and> (a # b # rest) ! Suc i = 0x000D
          \<and> (a # b # rest) ! Suc (Suc i) = 0x000A"
        by simp
      then show ?thesis unfolding has_crlf_terminator_def by blast
    qed
  qed
  with 1 show ?case by simp
qed (auto simp: has_crlf_terminator_def)

lemma test_bare_lf_iff:
  "test_bare_lf prev s \<longleftrightarrow>
     (\<exists>j. j < length s \<and> s ! j = 0x000A
        \<and> (if j = 0 then prev \<noteq> Some 0x000D else s ! (j - 1) \<noteq> 0x000D))"
proof (induction s arbitrary: prev)
  case Nil
  then show ?case by simp
next
  case (Cons c cs)
  let ?P = "\<lambda>p xs j. j < length xs \<and> xs ! j = (0x000A :: u16)
        \<and> (if j = 0 then p \<noteq> Some 0x000D else xs ! (j - 1) \<noteq> 0x000D)"
  have "(\<exists>j. ?P prev (c # cs) j) \<longleftrightarrow> (c = 0x000A \<and> prev \<noteq> Some 0x000D) \<or> (\<exists>j. ?P (Some c) cs j)"
  proof
    assume "\<exists>j. ?P prev (c # cs) j"
    then obtain j where j: "?P prev (c # cs) j" by blast
    show "(c = 0x000A \<and> prev \<noteq> Some 0x000D) \<or> (\<exists>j. ?P (Some c) cs j)"
    proof (cases j)
      case 0
      with j show ?thesis by simp
    next
      case (Suc k)
      with j have "?P (Some c) cs k" by (cases k) auto
      then show ?thesis by blast
    qed
  next
    assume "(c = 0x000A \<and> prev \<noteq> Some 0x000D) \<or> (\<exists>j. ?P (Some c) cs j)"
    then show "\<exists>j. ?P prev (c # cs) j"
    proof
      assume "c = 0x000A \<and> prev \<noteq> Some 0x000D"
      then have "?P prev (c # cs) 0" by simp
      then show ?thesis by blast
    next
      assume "\<exists>j. ?P (Some c) cs j"
      then obtain k where "?P (Some c) cs k" by blast
      then have "?P prev (c # cs) (Suc k)" by (cases k) auto
      then show ?thesis by blast
    qed
  qed
  with Cons.IH [of "Some c"] show ?case by simp
qed

lemma test_bare_lf_None_iff: "test_bare_lf None s \<longleftrightarrow> has_bare_lf s"
  unfolding test_bare_lf_iff has_bare_lf_def by (rule ex_cong1) auto

lemma special_space_loop_mixed:
  "filter (\<lambda>i. itype i = MixedEndings) (issues (special_space_loop cs s r))
     = filter (\<lambda>i. itype i = MixedEndings) (issues r)"
  by (induction cs s r rule: special_space_loop.induct) (auto simp: Let_def)

lemma special_space_loop_others:
  "\<exists>k. wtotal (special_space_loop cs s r) = wtotal r + k
     \<and> sum_list (map icount (filter (\<lambda>i. itype i \<noteq> MixedEndings) (issues (special_space_loop cs s r))))
       = sum_list (map icount (filter (\<lambda>i. itype i \<noteq> MixedEndings) (issues r))) + k"
proof (induction cs s r rule: special_space_loop.induct)
  case (1 s r)
  then show ?case by simp
next
  case (2 ch nfo others s r)
  show ?case
  proof (cases "0 < count_list s ch")
    case True
    define r1 where "r1 = \<lparr>wtotal = wtotal r + count_list s ch,
                 issues = issues r @ [\<lparr>itype = SpecialSpace, icount = count_list s ch,
                                       description = name nfo @ '' ('' @ code nfo @ '')''\<rparr>]\<rparr>"
    have step: "special_space_loop ((ch, nfo) # others) s r = special_space_loop others s r1"
      using True by (simp add: r1_def Let_def)
    from 2(1) [OF refl True] obtain k where
      "wtotal (special_space_loop others s r1) = wtotal r1 + k"
      "sum_list (map icount (filter (\<lambda>i. itype i \<noteq> MixedEndings) (issues (special_space_loop others s r1))))
       = sum_list (map icount (filter (\<lambda>i. itype i \<noteq> MixedEndings) (issues r1))) + k"
      unfolding r1_def by blast
    then have "wtotal (special_space_loop others s r1) = wtotal r + (count_list s ch + k)
      \<and> sum_list (map icount (filter (\<lambda>i. itype i \<noteq> MixedEndings) (issues (special_space_loop others s r1))))
       = sum_list (map icount (filter (\<lambda>i. itype i \<noteq> MixedEndings) (issues r))) + (count_list s ch + k)"
      by (simp add: r1_def)
    then show ?thesis unfolding step by blast
  next
    case False
    then have step: "special_space_loop ((ch, nfo) # others) s r = special_space_loop others s r"
      by (simp add: Let_def)
    from 2(2) [OF refl False] show ?thesis unfolding step .
  qed
qed

text \<open>
  Claim C9. The mixed-endings check adds exactly one issue of kind \<^verbatim>\<open>mixed-endings\<close>,
  with count 1, when the text has both a CRLF terminator and a bare LF, and no such
  issue otherwise; the total is the sum of the counts of the other issues plus 1 in the
  first case and plus 0 in the second, however many mixed occurrences there are.
\<close>

theorem mixed_endings_contribution:
  "filter (\<lambda>i. itype i = MixedEndings) (issues (detectWhitespaceAnomalies s))
     = (if has_crlf_terminator s \<and> has_bare_lf s
        then [\<lparr>itype = MixedEndings, icount = 1, description = ''Mixed line endings (CRLF + LF)''\<rparr>]
        else [])
   \<and> wtotal (detectWhitespaceAnomalies s)
     = sum_list (map icount (filter (\<lambda>i. itype i \<noteq> MixedEndings) (issues (detectWhitespaceAnomalies s))))
       + (if has_crlf_terminator s \<and> has_bare_lf s then 1 else 0)"
proof -
  define r0 :: ws_result where "r0 = \<lparr>wtotal = 0, issues = []\<rparr>"
  define r1 where "r1 = (if 0 < count_trailing s
                then \<lparr>wtotal = wtotal r0 + count_trailing s,
                      issues = issues r0 @ [\<lparr>itype = TrailingSpace, icount = count_trailing s,
                                            description = ''Trailing spaces on lines''\<rparr>]\<rparr>
                else r0)"
  define r2 where "r2 = (if 0 < count_double None s
                then \<lparr>wtotal = wtotal r1 + count_double None s,
                      issues = issues r1 @ [\<lparr>itype = DoubleSpace, icount = count_double None s,
                                            description = ''Multiple consecutive spaces''\<rparr>]\<rparr>
                else r1)"
  define r3 where "r3 = (if includes_crlf s \<and> test_bare_lf None s
                then \<lparr>wtotal = wtotal r2 + 1,
                      issues = issues r2 @ [\<lparr>itype = MixedEndings, icount = 1,
                                            description = ''Mixed line endings (CRLF + LF)''\<rparr>]\<rparr>
                else r2)"
  have res: "detectWhitespaceAnomalies s = special_space_loop spaceChars s r3"
    by (simp add: detectWhitespaceAnomalies_def Let_def r3_def r2_def r1_def r0_def)
  let ?mixed = "has_crlf_terminator s \<and> has_bare_lf s"
  let ?others = "\<lambda>r. sum_list (map icount (filter (\<lambda>i. itype i \<noteq> MixedEndings) (issues r)))"
  have m2: "filter (\<lambda>i. itype i = MixedEndings) (issues r2) = []"
    by (simp add: r2_def r1_def r0_def)
  have t2: "wtotal r2 = ?others r2"
    by (simp add: r2_def r1_def r0_def)
  have m3: "filter (\<lambda>i. itype i = MixedEndings) (issues r3)
     = (if ?mixed
        then [\<lparr>itype = MixedEndings, icount = 1, description = ''Mixed line endings (CRLF + LF)''\<rparr>]
        else [])"
    using m2 by (simp add: r3_def includes_crlf_iff test_bare_lf_None_iff)
  have t3: "wtotal r3 = ?others r3 + (if ?mixed then 1 else 0)"
    using t2 by (simp add: r3_def includes_crlf_iff test_bare_lf_None_iff)
  from special_space_loop_others [of spaceChars s r3] obtain k where
    k: "wtotal (special_space_loop spaceChars s r3) = wtotal r3 + k"
       "?others (special_space_loop spaceChars s r3) = ?others r3 + k"
    by blast
  have "wtotal (special_space_loop spaceChars s r3)
      = ?others (special_space_loop spaceChars s r3) + (if ?mixed then 1 else 0)"
    using k t3 by simp
  with m3 show ?thesis
    unfolding res special_space_loop_mixed by simp
qed

theorem mixed_endings_contribution_witness:
  "filter (\<lambda>i. itype i = MixedEndings)
       (issues (detectWhitespaceAnomalies [0x61, 0x0D, 0x0A, 0x62, 0x0A, 0x63, 0x0D, 0x0A, 0x0A]))
     = [\<lparr>itype = MixedEndings, icount = 1, description = ''Mixed line endings (CRLF + LF)''\<rparr>]
   \<and> wtotal (detectWhitespaceAnomalies [0x61, 0x0D, 0x0A, 0x62, 0x0A, 0x63, 0x0D, 0x0A, 0x0A])
     = sum_list (map icount (filter (\<lambda>i. itype i \<noteq> MixedEndings)
         (issues (detectWhitespaceAnomalies [0x61, 0x0D, 0x0A, 0x62, 0x0A, 0x63, 0x0D, 0x0A, 0x0A])))) + 1"
proof -
  let ?s = "[0x61, 0x0D, 0x0A, 0x62, 0x0A, 0x63, 0x0D, 0x0A, 0x0A] :: jstring"
  have "Suc 1 < length ?s \<and> ?s ! 1 = 0x000D \<and> ?s ! Suc 1 = 0x000A" by simp
  then have a: "has_crlf_terminator ?s" unfolding has_crlf_terminator_def by blast
  have "4 < length ?s \<and> ?s ! 4 = 0x000A \<and> (if (4::nat) = 0 then True else ?s ! (4 - 1) \<noteq> 0x000D)"
    by simp
  then have b: "has_bare_lf ?s" unfolding has_bare_lf_def by blast
  from mixed_endings_contribution [of ?s] a b show ?thesis by simp
qed

subsection \<open>Global replacement\<close>

lemma match_trailing_SomeD:
  "match_trailing s = Some n \<Longrightarrow>
     1 \<le> n \<and> n \<le> length s \<and> set (take n s) \<subseteq> {0x0020, 0x0009} \<and> at_line_end (drop n s)"
proof (induction s arbitrary: n)
  case Nil
  then show ?case by simp
next
  case (Cons c cs)
  from Cons.prems have hs: "c = 0x0020 \<or> c = 0x0009"
    by (auto split: if_splits)
  show ?case
  proof (cases "match_trailing cs")
    case None
    with Cons.prems hs have "n = 1" "at_line_end cs"
      by (auto split: if_splits)
    with hs show ?thesis by auto
  next
    case (Some k)
    with Cons.prems hs have n: "n = Suc k" by (auto split: if_splits)
    from Cons.IH [OF Some] n hs show ?thesis by auto
  qed
qed

lemma match_spaces_SomeD:
  "match_spaces s = Some n \<Longrightarrow>
     2 \<le> n \<and> n \<le> length s \<and> take n s = replicate n 0x0020
       \<and> (case drop n s of [] \<Rightarrow> True | d # _ \<Rightarrow> d \<noteq> 0x0020)"
proof -
  assume a: "match_spaces s = Some n"
  let ?P = "\<lambda>d. d = (0x0020 :: u16)"
  from a have n: "n = length (takeWhile ?P s)" "2 \<le> n"
    by (auto simp: match_spaces_def Let_def split: if_splits)
  have 1: "n \<le> length s" using n by (simp add: length_takeWhile_le)
  have 2: "take n s = takeWhile ?P s"
    unfolding n(1) by (rule takeWhile_eq_take [symmetric])
  have "\<forall>x \<in> set (takeWhile ?P s). x = 0x0020"
    by (auto dest: set_takeWhileD)
  then have 3: "takeWhile ?P s = replicate n 0x0020"
    unfolding n(1) by (metis replicate_length_same)
  have 4: "take n s = replicate n 0x0020"
    using 2 3 by (simp only:)
  have 5: "drop n s = dropWhile ?P s"
    unfolding n(1) by (rule dropWhile_eq_drop [symmetric])
  have "case dropWhile ?P s of [] \<Rightarrow> True | d # _ \<Rightarrow> d \<noteq> 0x0020"
  proof (cases "dropWhile ?P s")
    case Nil
    show ?thesis unfolding Nil by simp
  next
    case (Cons d t)
    from hd_dropWhile [of ?P s] have "d \<noteq> 0x0020" unfolding Cons by simp
    then show ?thesis unfolding Cons by simp
  qed
  then have "case drop n s of [] \<Rightarrow> True | d # _ \<Rightarrow> d \<noteq> 0x0020"
    by (simp only: 5)
  with n(2) 1 4 show ?thesis by blast
qed

lemma SUPPLEMENTARY_REGEX_SomeD:
  "SUPPLEMENTARY_REGEX s = Some n \<Longrightarrow>
     n = 2 \<and> (\<exists>b t. s = 0xDB40 # b # t \<and> ((0xDC01 \<le> b \<and> b \<le> 0xDC7F) \<or> (0xDD00 \<le> b \<and> b \<le> 0xDDEF)))"
  by (auto simp: SUPPLEMENTARY_REGEX_def split: list.splits if_splits)

lemma match_tag_SomeD: "match_tag s = Some n \<Longrightarrow> 2 \<le> n \<and> n \<le> length s"
  by (auto simp: match_tag_def Let_def split: list.splits if_splits)

lemma match_literal_ci_SomeD: "match_literal_ci pat s = Some n \<Longrightarrow> n = length pat \<and> n \<le> length s"
  by (auto simp: match_literal_ci_def split: if_splits)

lemma replace_global_length:
  assumes "\<And>s n. m s = Some n \<Longrightarrow> length rep \<le> n \<and> n \<le> length s"
  shows "length (replace_global m rep s) \<le> length s"
  using assms
proof (induction m rep s rule: replace_global.induct)
  case (1 m rep)
  then show ?case by simp
next
  case (2 m rep c cs)
  show ?case
  proof (cases "m (c # cs)")
    case None
    with 2 show ?thesis by simp
  next
    case (Some n)
    from "2.prems" [OF Some] have "length rep \<le> n" "n \<le> Suc (length cs)" by auto
    moreover have "length (replace_global m rep (drop (n - 1) cs)) \<le> length cs - (n - 1)"
      using "2.IH"(2) [OF Some "2.prems"] by simp
    ultimately show ?thesis using Some by simp
  qed
qed

lemma replace_global_set: "set (replace_global m rep s) \<subseteq> set s \<union> set rep"
proof (induction m rep s rule: replace_global.induct)
  case (1 m rep)
  then show ?case by simp
next
  case (2 m rep c cs)
  show ?case
  proof (cases "m (c # cs)")
    case None
    with "2.IH"(1) show ?thesis by auto
  next
    case (Some n)
    have "set (drop (n - 1) cs) \<subseteq> set cs" by (rule set_drop_subset)
    with "2.IH"(2) [OF Some] Some show ?thesis by auto
  qed
qed

lemma count_list_append_take_drop:
  "count_list s x = count_list (take n s) x + count_list (drop n s) x"
  by (metis append_take_drop_id count_list_append)

lemma replace_global_count:
  assumes "\<And>s n. m s = Some n \<Longrightarrow> 1 \<le> n \<and> x \<notin> set (take n s)"
    and "x \<notin> set rep"
  shows "count_list (replace_global m rep s) x = count_list s x"
  using assms
proof (induction m rep s rule: replace_global.induct)
  case (1 m rep)
  then show ?case by simp
next
  case (2 m rep c cs)
  show ?case
  proof (cases "m (c # cs)")
    case None
    with 2 show ?thesis by simp
  next
    case (Some n)
    from "2.prems"(1) [OF Some] have n: "1 \<le> n" and nx: "x \<notin> set (take n (c # cs))" by auto
    then have d: "drop n (c # cs) = drop (n - 1) cs" by (cases n) auto
    have "count_list (c # cs) x = count_list (take n (c # cs)) x + count_list (drop n (c # cs)) x"
      by (rule count_list_append_take_drop)
    also have "count_list (take n (c # cs)) x = 0" using nx by (simp add: count_list_0_iff)
    finally have "count_list (c # cs) x = count_list (drop (n - 1) cs) x" using d by simp
    moreover have "count_list rep x = 0" using "2.prems"(2) by (simp add: count_list_0_iff)
    ultimately show ?thesis using "2.IH"(2) [OF Some "2.prems"] Some by simp
  qed
qed

lemma replace_global_no_match: "no_match m s \<Longrightarrow> replace_global m rep s = s"
  by (induction s) auto

lemma no_match_drop: "no_match m s \<Longrightarrow> no_match m (drop k s)"
proof (induction s arbitrary: k)
  case Nil
  then show ?case by simp
next
  case (Cons c cs)
  then show ?case by (cases k) auto
qed

subsection \<open>Line feeds and lengths\<close>

lemma clean_stages:
  "clean nfc str options =
     finish (if not_false (normalize options) then nfc (stripped str options)
             else stripped str options) options"
  by (simp add: clean_def stripped_def finish_def Let_def cong del: if_weak_cong)

lemma HOMOGLYPHS_entries:
  "\<forall>p \<in> set HOMOGLYPHS. 0x00A0 \<le> fst p \<and> (fst p < 0xD800 \<or> 0xDFFF < fst p)
      \<and> 0x0020 \<le> snd p \<and> snd p \<le> 0x007E"
  by (simp add: HOMOGLYPHS_def)

lemma lookup_homoglyph_SomeD:
  "lookup_homoglyph k = Some v \<Longrightarrow>
     0x00A0 \<le> k \<and> (k < 0xD800 \<or> 0xDFFF < k) \<and> 0x0020 \<le> v \<and> v \<le> 0x007E"
  using HOMOGLYPHS_entries by (auto simp: lookup_homoglyph_def dest!: map_of_SomeD)

lemma HOMOGLYPH_REGEX_iff: "HOMOGLYPH_REGEX c \<longleftrightarrow> lookup_homoglyph c \<noteq> None"
  by (simp add: HOMOGLYPH_REGEX_def lookup_homoglyph_def map_of_eq_None_iff)

lemma fold_unit_cases:
  "fold_unit r ch = ch \<or> (0x00A0 \<le> ch \<and> (ch < 0xD800 \<or> 0xDFFF < ch)
      \<and> 0x0020 \<le> fold_unit r ch \<and> fold_unit r ch \<le> 0x007E)"
  by (auto simp: fold_unit_def fix_homoglyph_def dest: lookup_homoglyph_SomeD split: option.splits)

lemma INVISIBLE_REGEX_LF: "\<not> INVISIBLE_REGEX 0x000A"
  by (simp add: INVISIBLE_REGEX_def STRIPPABLE_CHARS_def INVISIBLE_CHARS_def)

lemma fold_unit_LF: "fold_unit r ch = 0x000A \<longleftrightarrow> ch = 0x000A"
  using fold_unit_cases [of r ch] by auto

lemma count_list_map_iff:
  "(\<And>c. f c = x \<longleftrightarrow> c = x) \<Longrightarrow> count_list (map f s) x = count_list s x"
  by (induction s) auto

lemma count_list_filter_keep:
  "P x \<Longrightarrow> count_list (filter P s) x = count_list s x"
  by (induction s) auto

lemma finish_count_LF: "count_list (finish r options) 0x000A = count_list r 0x000A"
proof -
  let ?f = "if truthy (fixHomoglyphs options) then map (fold_unit r) r else r"
  have 1: "count_list ?f 0x000A = count_list r 0x000A"
    by (simp add: count_list_map_iff fold_unit_LF)
  have 2: "count_list (replace_global match_trailing [] ?f) 0x000A = count_list ?f 0x000A"
  proof (rule replace_global_count)
    fix s n assume "match_trailing s = Some n"
    from match_trailing_SomeD [OF this]
    show "1 \<le> n \<and> 0x000A \<notin> set (take n s)" by auto
  qed simp
  have 3: "count_list (replace_global match_spaces [0x0020] (replace_global match_trailing [] ?f)) 0x000A
      = count_list (replace_global match_trailing [] ?f) 0x000A"
  proof (rule replace_global_count)
    fix s n assume "match_spaces s = Some n"
    from match_spaces_SomeD [OF this]
    show "1 \<le> n \<and> 0x000A \<notin> set (take n s)" by auto
  qed simp
  have "finish r options = replace_global match_spaces [0x0020] (replace_global match_trailing [] ?f)"
    unfolding finish_def fold_unit_def [abs_def] by simp
  with 1 2 3 show ?thesis by simp
qed

lemma stripped_count_LF:
  "\<not> truthy (stripHTML options) \<Longrightarrow> count_list (stripped str options) 0x000A = count_list str 0x000A"
proof -
  assume a: "\<not> truthy (stripHTML options)"
  let ?g = "filter (\<lambda>c. \<not> INVISIBLE_REGEX c) str"
  have "count_list (replace_global SUPPLEMENTARY_REGEX [] ?g) 0x000A = count_list ?g 0x000A"
  proof (rule replace_global_count)
    fix s n assume "SUPPLEMENTARY_REGEX s = Some n"
    from SUPPLEMENTARY_REGEX_SomeD [OF this]
    show "1 \<le> n \<and> 0x000A \<notin> set (take n s)" by auto
  qed simp
  moreover have "count_list ?g 0x000A = count_list str 0x000A"
    by (rule count_list_filter_keep) (rule INVISIBLE_REGEX_LF)
  ultimately show ?thesis using a by (simp add: stripped_def)
qed

text \<open>
  Claim C10. With \<^verbatim>\<open>stripHTML\<close> off, the cleaned text has exactly as many line feeds
  (U+000A) as the input. The runtime's NFC is assumed to keep the number of line feeds
  (line feed is a starter that takes part in no decomposition or composition); the
  assumption is used only when \<^verbatim>\<open>normalize\<close> is on.
\<close>

theorem clean_preserves_line_feeds:
  assumes "\<not> truthy (stripHTML options)"
    and "not_false (normalize options) \<Longrightarrow> \<forall>s. count_list (nfc s) 0x000A = count_list s 0x000A"
  shows "count_list (clean nfc str options) 0x000A = count_list str 0x000A"
  using assms by (simp add: clean_stages finish_count_LF stripped_count_LF)

lemma nfc_ascii_qa_count_LF: "count_list (nfc_ascii_qa s) 0x000A = count_list s 0x000A"
  by (induction s) (auto simp: nfc_ascii_qa_def)

theorem clean_preserves_line_feeds_witness:
  "\<not> truthy (stripHTML default_options)
   \<and> (\<forall>s. count_list (nfc_ascii_qa s) 0x000A = count_list s 0x000A)
   \<and> count_list (clean nfc_ascii_qa [0x61, 0x20, 0x0A, 0x200B, 0x62, 0x20, 0x20, 0x0A] default_options) 0x000A = 2"
proof -
  have a: "\<not> truthy (stripHTML default_options)"
    by (simp add: default_options_def truthy_def)
  have b: "\<forall>s. count_list (nfc_ascii_qa s) 0x000A = count_list s 0x000A"
    by (simp add: nfc_ascii_qa_count_LF)
  from clean_preserves_line_feeds [of default_options nfc_ascii_qa, OF a b]
  have "count_list (clean nfc_ascii_qa [0x61, 0x20, 0x0A, 0x200B, 0x62, 0x20, 0x20, 0x0A] default_options) 0x000A
      = count_list [0x61, 0x20, 0x0A, 0x200B, 0x62, 0x20, 0x20, 0x0A :: u16] 0x000A" .
  then show ?thesis using a b by simp
qed

lemma strip_html_length: "length (strip_html s) \<le> length s"
proof -
  have tag: "length (replace_global match_tag [] x) \<le> length x" for x
    by (rule replace_global_length) (use match_tag_SomeD in auto)
  have ent: "length (replace_global (match_literal_ci pat) rep x) \<le> length x"
    if "length rep \<le> length pat" for pat rep x
    by (rule replace_global_length) (use that match_literal_ci_SomeD in auto)
  define r1 where "r1 = replace_global match_tag [] s"
  define r2 where "r2 = replace_global (match_literal_ci ''&nbsp;'') (utf16 '' '') r1"
  define r3 where "r3 = replace_global (match_literal_ci ''&amp;'') (utf16 ''&'') r2"
  define r4 where "r4 = replace_global (match_literal_ci ''&lt;'') (utf16 ''<'') r3"
  define r5 where "r5 = replace_global (match_literal_ci ''&gt;'') (utf16 ''>'') r4"
  define r6 where \<open>r6 = replace_global (match_literal_ci ''&quot;'') (utf16 ''"'') r5\<close>
  have "length r1 \<le> length s" unfolding r1_def by (rule tag)
  moreover have "length r2 \<le> length r1" unfolding r2_def by (rule ent) (simp add: utf16_def)
  moreover have "length r3 \<le> length r2" unfolding r3_def by (rule ent) (simp add: utf16_def)
  moreover have "length r4 \<le> length r3" unfolding r4_def by (rule ent) (simp add: utf16_def)
  moreover have "length r5 \<le> length r4" unfolding r5_def by (rule ent) (simp add: utf16_def)
  moreover have "length r6 \<le> length r5" unfolding r6_def by (rule ent) (simp add: utf16_def)
  moreover have "length (replace_global (match_literal_ci ''&#39;'') [0x0027] r6) \<le> length r6"
    by (rule ent) simp
  moreover have "strip_html s = replace_global (match_literal_ci ''&#39;'') [0x0027] r6"
    by (simp add: strip_html_def Let_def r6_def r5_def r4_def r3_def r2_def r1_def)
  ultimately show ?thesis by simp
qed

lemma stripped_length: "length (stripped str options) \<le> length str"
proof -
  let ?h = "if truthy (stripHTML options) then strip_html str else str"
  have "length (replace_global SUPPLEMENTARY_REGEX [] (filter (\<lambda>c. \<not> INVISIBLE_REGEX c) ?h))
      \<le> length (filter (\<lambda>c. \<not> INVISIBLE_REGEX c) ?h)"
  proof (rule replace_global_length)
    fix s n assume "SUPPLEMENTARY_REGEX s = Some n"
    from SUPPLEMENTARY_REGEX_SomeD [OF this]
    show "length ([] :: jstring) \<le> n \<and> n \<le> length s" by auto
  qed
  moreover have "length (filter (\<lambda>c. \<not> INVISIBLE_REGEX c) ?h) \<le> length ?h"
    by (rule length_filter_le)
  moreover have "length ?h \<le> length str"
    using strip_html_length [of str] by simp
  ultimately show ?thesis unfolding stripped_def by linarith
qed

lemma finish_length: "length (finish r options) \<le> length r"
proof -
  let ?f = "if truthy (fixHomoglyphs options)
            then map (\<lambda>ch. if HOMOGLYPH_REGEX ch then fix_homoglyph r ch else ch) r else r"
  have "length (replace_global match_spaces [0x0020] (replace_global match_trailing [] ?f))
      \<le> length (replace_global match_trailing [] ?f)"
    by (rule replace_global_length) (use match_spaces_SomeD in fastforce)
  moreover have "length (replace_global match_trailing [] ?f) \<le> length ?f"
    by (rule replace_global_length) (use match_trailing_SomeD in fastforce)
  moreover have "length ?f = length r" by simp
  ultimately show ?thesis unfolding finish_def by linarith
qed

text \<open>
  Claim C3, amended. The cleaned text is no longer than the input whenever the
  normalization step does not lengthen the text it receives, in particular whenever
  \<^verbatim>\<open>normalize\<close> is \<^verbatim>\<open>false\<close>: every other step removes units or replaces a match by a
  string that is not longer.
\<close>

theorem clean_length_bound:
  assumes "not_false (normalize options)
             \<Longrightarrow> length (nfc (stripped str options)) \<le> length (stripped str options)"
  shows "length (clean nfc str options) \<le> length str"
proof -
  let ?r4 = "if not_false (normalize options) then nfc (stripped str options)
             else stripped str options"
  have "length ?r4 \<le> length (stripped str options)" using assms by simp
  with finish_length [of ?r4 options] stripped_length [of str options]
  show ?thesis unfolding clean_stages by linarith
qed

lemmas eval_defs = clean_def Let_def default_options_def truthy_def not_false_def
  INVISIBLE_REGEX_def STRIPPABLE_CHARS_def INVISIBLE_CHARS_def SUPPLEMENTARY_REGEX_def
  match_spaces_def at_line_end_def isLineTerminator_def nfc_ascii_qa_def stripped_def

theorem clean_length_bound_witness:
  "length (nfc_ascii_qa (stripped [0x61, 0x20, 0x20, 0x62, 0x20, 0x200B] default_options))
      \<le> length (stripped [0x61, 0x20, 0x20, 0x62, 0x20, 0x200B] default_options)
   \<and> length (clean nfc_ascii_qa [0x61, 0x20, 0x20, 0x62, 0x20, 0x200B] default_options) \<le> 6"
proof -
  have a: "length (nfc_ascii_qa (stripped [0x61, 0x20, 0x20, 0x62, 0x20, 0x200B] default_options))
      \<le> length (stripped [0x61, 0x20, 0x20, 0x62, 0x20, 0x200B] default_options)"
    by (simp add: eval_defs)
  from clean_length_bound [of default_options nfc_ascii_qa "[0x61, 0x20, 0x20, 0x62, 0x20, 0x200B]", OF a]
  show ?thesis using a by simp
qed

text \<open>
  Claim C3 as stated fails: with the default options the one-unit text U+0958 is
  normalized to the two units U+0915 U+093C, and no later step removes either.
\<close>

theorem clean_lengthens_counterexample:
  "\<not> length (clean nfc_ascii_qa [0x0958] default_options) \<le> length [0x0958 :: u16]"
  by (simp add: eval_defs)

subsection \<open>Surrogate pairs\<close>

lemma isSurrogate_iff: "isSurrogate c \<longleftrightarrow> 0xD800 \<le> c \<and> c \<le> 0xDFFF"
  unfolding isSurrogate_def isHighSurrogate_def isLowSurrogate_def
  by (auto simp: word_le_nat_alt)

lemma high_not_low: "isHighSurrogate c \<Longrightarrow> \<not> isLowSurrogate c"
  unfolding isHighSurrogate_def isLowSurrogate_def by (auto simp: word_le_nat_alt)

lemma STRIPPABLE_not_surrogate: "\<forall>c \<in> set STRIPPABLE_CHARS. c < 0xD800 \<or> 0xDFFF < c"
  by (simp add: STRIPPABLE_CHARS_def INVISIBLE_CHARS_def)

lemma INVISIBLE_REGEX_not_surrogate: "INVISIBLE_REGEX c \<Longrightarrow> \<not> isSurrogate c"
  using STRIPPABLE_not_surrogate
  unfolding INVISIBLE_REGEX_def isSurrogate_iff
  by (auto simp: word_le_nat_alt word_less_nat_alt)

lemma paired_plain_Cons:
  "\<not> isSurrogate c \<Longrightarrow> paired e (c # s) \<longleftrightarrow> \<not> e \<and> paired False s"
  by (auto simp: isSurrogate_def)

lemma paired_plain_append:
  "\<forall>c \<in> set xs. \<not> isSurrogate c \<Longrightarrow> paired False (xs @ s) \<longleftrightarrow> paired False s"
  by (induction xs) (simp_all add: paired_plain_Cons del: paired.simps)

lemma paired_filter:
  assumes "\<And>c. \<not> P c \<Longrightarrow> \<not> isSurrogate c"
  shows "paired e s \<Longrightarrow> paired e (filter P s)"
proof (induction s arbitrary: e)
  case Nil
  then show ?case by simp
next
  case (Cons c s)
  show ?case
  proof (cases "P c")
    case True
    with Cons show ?thesis by (auto split: if_splits)
  next
    case False
    from assms [OF False] Cons.prems have "\<not> e" "paired False s"
      by (simp_all add: paired_plain_Cons del: paired.simps)
    with Cons.IH [of False] False show ?thesis by simp
  qed
qed

lemma paired_map:
  assumes "\<And>c. isHighSurrogate (f c) = isHighSurrogate c"
    and "\<And>c. isLowSurrogate (f c) = isLowSurrogate c"
  shows "paired e (map f s) = paired e s"
  by (induction s arbitrary: e) (auto simp: assms)

text \<open>After a prefix that ends in a unit which is not a surrogate, the rest is paired.\<close>

lemma paired_after_plain:
  "paired e (xs @ c # s) \<Longrightarrow> \<not> isSurrogate c \<Longrightarrow> paired False s"
proof (induction xs arbitrary: e)
  case Nil
  then show ?case by (simp add: paired_plain_Cons del: paired.simps)
next
  case (Cons x xs)
  from Cons.prems(1) have "paired True (xs @ c # s) \<or> paired False (xs @ c # s)"
    by (auto split: if_splits)
  with Cons.IH Cons.prems(2) show ?case by blast
qed

lemma paired_drop_plain:
  assumes "paired e s" and "1 \<le> n" and "n \<le> length s" and "\<not> isSurrogate (s ! (n - 1))"
  shows "paired False (drop n s)"
proof -
  from assms(2,3) have "n - 1 < length s" by simp
  then have "s = take (n - 1) s @ s ! (n - 1) # drop (Suc (n - 1)) s"
    by (rule id_take_nth_drop)
  with assms(2) have "s = take (n - 1) s @ s ! (n - 1) # drop n s" by simp
  with assms(1) have "paired e (take (n - 1) s @ s ! (n - 1) # drop n s)" by simp
  from paired_after_plain [OF this assms(4)] show ?thesis .
qed

lemma paired_True_head: "paired True s \<Longrightarrow> s \<noteq> [] \<and> isLowSurrogate (hd s)"
  by (cases s) auto

text \<open>
  A global replacement keeps a text paired when no match starts on a low surrogate, what
  follows a match in a paired text is paired, and the replacement has no surrogate.
\<close>

lemma paired_replace_global:
  assumes "\<And>s n e. m s = Some n \<Longrightarrow> paired e s \<Longrightarrow> 1 \<le> n \<and> \<not> e \<and> paired False (drop n s)"
    and "\<forall>c \<in> set rep. \<not> isSurrogate c"
  shows "paired e s \<Longrightarrow> paired e (replace_global m rep s)"
  using assms
proof (induction m rep s arbitrary: e rule: replace_global.induct)
  case (1 m rep)
  then show ?case by simp
next
  case (2 m rep c cs)
  show ?case
  proof (cases "m (c # cs)")
    case None
    have ih: "paired e' cs \<Longrightarrow> paired e' (replace_global m rep cs)" for e'
      using "2.IH"(1) [OF None _ "2.prems"(2,3)] by blast
    from "2.prems"(1) ih None show ?thesis by (auto split: if_splits)
  next
    case (Some n)
    from "2.prems"(2) [OF Some "2.prems"(1)]
    have n: "1 \<le> n" and e: "\<not> e" and d: "paired False (drop n (c # cs))" by auto
    from n have "drop n (c # cs) = drop (n - 1) cs" by (cases n) auto
    with d have "paired False (drop (n - 1) cs)" by simp
    from "2.IH"(2) [OF Some this "2.prems"(2,3)]
    have "paired False (replace_global m rep (drop (n - 1) cs))" .
    with "2.prems"(3) e Some show ?thesis by (simp add: paired_plain_append)
  qed
qed

lemma paired_match_plain:
  assumes "paired e s" and "1 \<le> n" and "n \<le> length s"
    and "\<forall>c \<in> set (take n s). \<not> isSurrogate c"
  shows "1 \<le> n \<and> \<not> e \<and> paired False (drop n s)"
proof -
  from assms(2,3) have ne: "s \<noteq> []" by auto
  from assms(2,3) have "n - 1 < n" "n - 1 < length s" by auto
  then have "s ! (n - 1) \<in> set (take n s)"
    by (metis nth_take in_set_conv_nth length_take min.absorb2 assms(3))
  with assms(4) have last: "\<not> isSurrogate (s ! (n - 1))" by blast
  from ne assms(2) have "hd s \<in> set (take n s)"
    by (cases s; cases n) auto
  with assms(4) have "\<not> isSurrogate (hd s)" by blast
  with paired_True_head [of s] assms(1) have "\<not> e"
    by (cases e) (auto simp: isSurrogate_def)
  with paired_drop_plain [OF assms(1,2,3) last] assms(2) show ?thesis by simp
qed

lemma small_not_surrogate: "c < 0x100 \<Longrightarrow> \<not> isSurrogate (c :: u16)"
  unfolding isSurrogate_iff by (auto simp: word_le_nat_alt word_less_nat_alt)

lemma utf16_small: "c \<in> set (utf16 s) \<Longrightarrow> c < 0x100"
proof -
  assume "c \<in> set (utf16 s)"
  then obtain ch where c: "c = of_nat (of_char ch)" by (auto simp: utf16_def)
  have lt: "(of_char ch :: nat) < 256" by simp
  then have "(of_char ch :: nat) < 65536" by linarith
  then have "(of_char ch :: nat) mod 65536 = of_char ch" by (rule mod_less)
  with lt have "unat (of_nat (of_char ch) :: u16) < 256"
    by (simp add: unat_of_nat)
  then show ?thesis unfolding c by (simp add: word_less_nat_alt)
qed

lemma toUpperASCII_small_iff: "toUpperASCII c < 0x100 \<longleftrightarrow> c < 0x100"
proof (cases "0x0061 \<le> c \<and> c \<le> 0x007A")
  case True
  then have "unat (c - 0x20) = unat c - 0x20"
    by (simp add: unat_sub word_le_nat_alt)
  with True show ?thesis
    by (auto simp: toUpperASCII_def word_le_nat_alt word_less_nat_alt)
next
  case False
  then show ?thesis by (auto simp: toUpperASCII_def)
qed

lemma match_literal_ci_units:
  assumes "match_literal_ci pat s = Some n"
  shows "\<forall>c \<in> set (take n s). \<not> isSurrogate c"
proof
  fix c assume c: "c \<in> set (take n s)"
  from assms have n: "n = length pat"
    and eq: "map toUpperASCII (take (length pat) s) = map toUpperASCII (utf16 pat)"
    by (auto simp: match_literal_ci_def split: if_splits)
  from c n have "toUpperASCII c \<in> set (map toUpperASCII (take (length pat) s))" by simp
  with eq have "toUpperASCII c \<in> set (map toUpperASCII (utf16 pat))" by simp
  then obtain d where "d \<in> set (utf16 pat)" "toUpperASCII c = toUpperASCII d" by auto
  with utf16_small [of d pat] have "toUpperASCII c < 0x100"
    by (simp add: toUpperASCII_small_iff)
  then show "\<not> isSurrogate c"
    by (simp add: toUpperASCII_small_iff small_not_surrogate)
qed

lemma paired_match_literal_ci:
  assumes "match_literal_ci pat s = Some n" and "paired e s" and "pat \<noteq> []"
  shows "1 \<le> n \<and> \<not> e \<and> paired False (drop n s)"
proof (rule paired_match_plain [OF assms(2)])
  from match_literal_ci_SomeD [OF assms(1)] assms(3) show "1 \<le> n" "n \<le> length s"
    by (auto simp: Suc_le_eq)
  from match_literal_ci_units [OF assms(1)] show "\<forall>c \<in> set (take n s). \<not> isSurrogate c" .
qed

lemma paired_match_tag:
  assumes "match_tag s = Some n" and "paired e s"
  shows "1 \<le> n \<and> \<not> e \<and> paired False (drop n s)"
proof -
  from assms(1) obtain cs where s: "s = 0x003C # cs"
    and n: "n = length (takeWhile (\<lambda>d. d \<noteq> 0x003E) cs) + 2"
    and lt: "length (takeWhile (\<lambda>d. d \<noteq> 0x003E) cs) < length cs"
    by (auto simp: match_tag_def Let_def split: list.splits if_splits)
  from nth_length_takeWhile [OF lt] have "cs ! length (takeWhile (\<lambda>d. d \<noteq> 0x003E) cs) = 0x003E"
    by simp
  then have "s ! (n - 1) = 0x003E" unfolding s n by simp
  then have last: "\<not> isSurrogate (s ! (n - 1))" by (simp add: small_not_surrogate)
  have "\<not> isSurrogate (hd s)" unfolding s by (simp add: small_not_surrogate)
  with paired_True_head [of s] assms(2) have "\<not> e"
    by (cases e) (auto simp: isSurrogate_def)
  moreover have "1 \<le> n" "n \<le> length s" using n lt s by auto
  ultimately show ?thesis using paired_drop_plain [OF assms(2) _ _ last] by simp
qed

lemma paired_SUPPLEMENTARY_REGEX:
  assumes "SUPPLEMENTARY_REGEX s = Some n" and "paired e s"
  shows "1 \<le> n \<and> \<not> e \<and> paired False (drop n s)"
proof -
  from SUPPLEMENTARY_REGEX_SomeD [OF assms(1)] obtain b t where
    n: "n = 2" and s: "s = 0xDB40 # b # t" by blast
  have h: "isHighSurrogate 0xDB40" "\<not> isLowSurrogate 0xDB40"
    by (simp_all add: isHighSurrogate_def isLowSurrogate_def)
  with assms(2) show ?thesis unfolding s n by (auto split: if_splits)
qed

lemma paired_match_trailing:
  assumes "match_trailing s = Some n" and "paired e s"
  shows "1 \<le> n \<and> \<not> e \<and> paired False (drop n s)"
proof (rule paired_match_plain [OF assms(2)])
  from match_trailing_SomeD [OF assms(1)] show "1 \<le> n" "n \<le> length s" by auto
  from match_trailing_SomeD [OF assms(1)] have "set (take n s) \<subseteq> {0x0020, 0x0009}" by simp
  then show "\<forall>c \<in> set (take n s). \<not> isSurrogate c"
    by (auto simp: small_not_surrogate)
qed

lemma paired_match_spaces:
  assumes "match_spaces s = Some n" and "paired e s"
  shows "1 \<le> n \<and> \<not> e \<and> paired False (drop n s)"
proof (rule paired_match_plain [OF assms(2)])
  from match_spaces_SomeD [OF assms(1)] show "1 \<le> n" "n \<le> length s" by auto
  from match_spaces_SomeD [OF assms(1)] have "take n s = replicate n 0x0020" by simp
  then show "\<forall>c \<in> set (take n s). \<not> isSurrogate c"
    by (auto simp: small_not_surrogate)
qed

lemma paired_strip_html: "paired e s \<Longrightarrow> paired e (strip_html s)"
proof -
  assume a: "paired e s"
  have ent: "paired e x \<Longrightarrow> paired e (replace_global (match_literal_ci pat) rep x)"
    if "pat \<noteq> []" "\<forall>c \<in> set rep. \<not> isSurrogate c" for pat rep x
  proof (rule paired_replace_global)
    fix s n e' assume "match_literal_ci pat s = Some n" "paired e' s"
    from paired_match_literal_ci [OF this that(1)]
    show "1 \<le> n \<and> \<not> e' \<and> paired False (drop n s)" .
  qed (use that in auto)
  have plain: "\<forall>c \<in> set (utf16 p). \<not> isSurrogate c" for p
    using utf16_small small_not_surrogate by blast
  define r1 where "r1 = replace_global match_tag [] s"
  define r2 where "r2 = replace_global (match_literal_ci ''&nbsp;'') (utf16 '' '') r1"
  define r3 where "r3 = replace_global (match_literal_ci ''&amp;'') (utf16 ''&'') r2"
  define r4 where "r4 = replace_global (match_literal_ci ''&lt;'') (utf16 ''<'') r3"
  define r5 where "r5 = replace_global (match_literal_ci ''&gt;'') (utf16 ''>'') r4"
  define r6 where \<open>r6 = replace_global (match_literal_ci ''&quot;'') (utf16 ''"'') r5\<close>
  have "paired e r1" unfolding r1_def
    by (rule paired_replace_global) (use a paired_match_tag in auto)
  then have "paired e r2" unfolding r2_def by (rule ent [rotated 2]) (simp_all add: plain)
  then have "paired e r3" unfolding r3_def by (rule ent [rotated 2]) (simp_all add: plain)
  then have "paired e r4" unfolding r4_def by (rule ent [rotated 2]) (simp_all add: plain)
  then have "paired e r5" unfolding r5_def by (rule ent [rotated 2]) (simp_all add: plain)
  then have "paired e r6" unfolding r6_def by (rule ent [rotated 2]) (simp_all add: plain)
  then have "paired e (replace_global (match_literal_ci ''&#39;'') [0x0027] r6)"
    by (rule ent [rotated 2]) (simp_all add: small_not_surrogate)
  moreover have "strip_html s = replace_global (match_literal_ci ''&#39;'') [0x0027] r6"
    by (simp add: strip_html_def Let_def r6_def r5_def r4_def r3_def r2_def r1_def)
  ultimately show ?thesis by simp
qed

lemma paired_stripped: "paired e str \<Longrightarrow> paired e (stripped str options)"
proof -
  assume a: "paired e str"
  let ?h = "if truthy (stripHTML options) then strip_html str else str"
  from a have "paired e ?h" by (simp add: paired_strip_html)
  then have "paired e (filter (\<lambda>c. \<not> INVISIBLE_REGEX c) ?h)"
    by (rule paired_filter [rotated]) (simp add: INVISIBLE_REGEX_not_surrogate)
  then show ?thesis unfolding stripped_def
    by (rule paired_replace_global [rotated 2]) (use paired_SUPPLEMENTARY_REGEX in auto)
qed

lemma fold_unit_surrogate:
  "isHighSurrogate (fold_unit r c) = isHighSurrogate c"
  "isLowSurrogate (fold_unit r c) = isLowSurrogate c"
  using fold_unit_cases [of r c]
  unfolding isHighSurrogate_def isLowSurrogate_def
  by (auto simp: word_le_nat_alt word_less_nat_alt)

lemma finish_fold_unit:
  "finish r options =
     replace_global match_spaces [0x0020]
       (replace_global match_trailing []
          (if truthy (fixHomoglyphs options) then map (fold_unit r) r else r))"
  unfolding finish_def fold_unit_def [abs_def] by simp

lemma paired_finish: "paired e r \<Longrightarrow> paired e (finish r options)"
proof -
  assume a: "paired e r"
  let ?f = "if truthy (fixHomoglyphs options) then map (fold_unit r) r else r"
  from a have "paired e ?f" by (simp add: paired_map fold_unit_surrogate)
  then have "paired e (replace_global match_trailing [] ?f)"
    by (rule paired_replace_global [rotated 2]) (use paired_match_trailing in auto)
  then show ?thesis unfolding finish_fold_unit
    by (rule paired_replace_global [rotated 2])
      (use paired_match_spaces in \<open>auto simp: small_not_surrogate\<close>)
qed

lemma paired_Cons_iff: "paired e (c # cs) \<longleftrightarrow> e = isLowSurrogate c \<and> paired (isHighSurrogate c) cs"
  using high_not_low [of c] by auto

lemma all_less_Suc_shift: "(\<forall>i<Suc n. P i) \<longleftrightarrow> P 0 \<and> (\<forall>i<n. P (Suc i))"
  using less_Suc_eq_0_disj by auto

lemma paired_positions:
  "paired e s \<longleftrightarrow>
     (if e then s \<noteq> [] \<and> isLowSurrogate (s ! 0) else True)
     \<and> (\<forall>i<length s. isHighSurrogate (s ! i) \<longrightarrow> Suc i < length s \<and> isLowSurrogate (s ! Suc i))
     \<and> (\<forall>i<length s. isLowSurrogate (s ! i) \<longrightarrow> (if i = 0 then e else isHighSurrogate (s ! (i - 1))))"
proof (induction s arbitrary: e)
  case Nil
  then show ?case by simp
next
  case (Cons c cs)
  show ?case
    unfolding paired_Cons_iff Cons.IH [of "isHighSurrogate c"] all_less_Suc_shift length_Cons
    by (cases cs) (auto simp: nth_Cons')
qed

text \<open>
  The definition by a scan agrees with the positional one: every high surrogate is
  immediately followed by a low surrogate, and every low surrogate immediately follows a
  high one.
\<close>

lemma well_formed_iff:
  "well_formed s \<longleftrightarrow>
     (\<forall>i<length s. isHighSurrogate (s ! i) \<longrightarrow> Suc i < length s \<and> isLowSurrogate (s ! Suc i))
     \<and> (\<forall>i<length s. isLowSurrogate (s ! i) \<longrightarrow> 0 < i \<and> isHighSurrogate (s ! (i - 1)))"
proof -
  have "(if i = 0 then False else Q) \<longleftrightarrow> 0 < i \<and> Q" for i :: nat and Q
    by auto
  then show ?thesis
    unfolding well_formed_def paired_positions by simp
qed

text \<open>
  Claim C4, amended. For a text without unpaired surrogates the cleaned text has no
  unpaired surrogate, for all options. The runtime's NFC is assumed to map a well-formed
  text to a well-formed text; the assumption is used only when \<^verbatim>\<open>normalize\<close> is on.
\<close>

theorem clean_well_formed:
  assumes "well_formed str"
    and "not_false (normalize options) \<Longrightarrow> \<forall>s. well_formed s \<longrightarrow> well_formed (nfc s)"
  shows "well_formed (clean nfc str options)"
proof -
  from assms(1) have "well_formed (stripped str options)"
    unfolding well_formed_def by (rule paired_stripped)
  with assms(2) have "well_formed (if not_false (normalize options) then nfc (stripped str options)
             else stripped str options)" by simp
  then show ?thesis unfolding clean_stages well_formed_def by (rule paired_finish)
qed

lemma paired_nfc_ascii_qa: "paired e s \<Longrightarrow> paired e (nfc_ascii_qa s)"
proof (induction s arbitrary: e)
  case Nil
  then show ?case by (simp add: nfc_ascii_qa_def)
next
  case (Cons c s)
  have q: "\<not> isHighSurrogate 0x0958" "\<not> isLowSurrogate 0x0958"
    "\<not> isHighSurrogate 0x0915" "\<not> isLowSurrogate 0x0915"
    "\<not> isHighSurrogate 0x093C" "\<not> isLowSurrogate 0x093C"
    by (simp_all add: isHighSurrogate_def isLowSurrogate_def)
  have step: "nfc_ascii_qa (c # s) = (if c = 0x0958 then [0x0915, 0x093C] else [c]) @ nfc_ascii_qa s"
    by (simp add: nfc_ascii_qa_def)
  from Cons.prems Cons.IH q show ?case unfolding step
    by (auto split: if_splits)
qed

theorem clean_well_formed_witness:
  "well_formed [0x61, 0xD83D, 0xDE00, 0x200B, 0xDB40, 0xDC01, 0x0958, 0x20]
   \<and> (\<forall>s. (if well_formed s then well_formed (nfc_ascii_qa s) else True))
   \<and> well_formed (clean nfc_ascii_qa [0x61, 0xD83D, 0xDE00, 0x200B, 0xDB40, 0xDC01, 0x0958, 0x20] default_options)"
proof -
  let ?s = "[0x61, 0xD83D, 0xDE00, 0x200B, 0xDB40, 0xDC01, 0x0958, 0x20] :: jstring"
  have a: "well_formed ?s"
    by (simp add: well_formed_def isHighSurrogate_def isLowSurrogate_def)
  have b: "\<forall>s. well_formed s \<longrightarrow> well_formed (nfc_ascii_qa s)"
    by (simp add: well_formed_def paired_nfc_ascii_qa)
  from clean_well_formed [of ?s default_options nfc_ascii_qa, OF a b]
  show ?thesis using a b by simp
qed

text \<open>
  Claim C4 as stated fails: no step of \<^verbatim>\<open>clean\<close> touches a lone surrogate, so the
  text consisting of the unpaired high surrogate D800 is returned as it is (here with
  \<^verbatim>\<open>normalize: false\<close>, whatever the runtime's NFC does).
\<close>

theorem clean_keeps_lone_surrogate_counterexample:
  "\<forall>nfc. \<not> well_formed (clean nfc [0xD800]
      \<lparr>normalize = Some False, fixHomoglyphs = None, stripSpaces = None, stripHTML = None\<rparr>)"
  by (simp add: well_formed_def isHighSurrogate_def isLowSurrogate_def eval_defs)

subsection \<open>The detector and the cleaner\<close>

lemma record_char_result:
  "\<exists>r1 e1. record_char ch nfo i r = Inr r1 \<and> dtotal r1 = dtotal r + 1
     \<and> map_of (chars r1) = (map_of (chars r))(ch \<mapsto> e1)
     \<and> count e1 = Suc (case map_of (chars r) ch of None \<Rightarrow> 0 | Some e \<Rightarrow> count e)"
proof (cases "map_of (chars r) ch")
  case None
  then show ?thesis
    by (auto simp: record_char_def Let_def update_conv' fun_eq_iff)
next
  case (Some e)
  then show ?thesis
    by (auto simp: record_char_def Let_def update_conv' fun_eq_iff)
qed

lemma detect_loop_inv:
  "\<exists>r'. detect_loop inc rest i r = Inr r'
     \<and> dtotal r' = dtotal r + length (filter (shouldAnnotate inc) rest)
     \<and> (\<forall>c. map_option count (map_of (chars r') c) =
           (if shouldAnnotate inc c \<and> c \<in> set rest
            then Some (count_list rest c + (case map_of (chars r) c of None \<Rightarrow> 0 | Some e \<Rightarrow> count e))
            else map_option count (map_of (chars r) c)))"
proof (induction rest arbitrary: i r)
  case Nil
  then show ?case by simp
next
  case (Cons ch rest)
  show ?case
  proof (cases "shouldAnnotate inc ch")
    case False
    then have step: "detect_loop inc (ch # rest) i r = detect_loop inc rest (i + 1) r"
      by (auto simp: shouldAnnotate_def split: option.splits if_splits)
    from Cons.IH [of "i + 1" r] obtain r' where
      r': "detect_loop inc rest (i + 1) r = Inr r'"
      and tot: "dtotal r' = dtotal r + length (filter (shouldAnnotate inc) rest)"
      and cnt: "\<And>c. map_option count (map_of (chars r') c) =
           (if shouldAnnotate inc c \<and> c \<in> set rest
            then Some (count_list rest c + (case map_of (chars r) c of None \<Rightarrow> 0 | Some e \<Rightarrow> count e))
            else map_option count (map_of (chars r) c))"
      by blast
    have "dtotal r' = dtotal r + length (filter (shouldAnnotate inc) (ch # rest))"
      using tot False by simp
    moreover have "map_option count (map_of (chars r') c) =
           (if shouldAnnotate inc c \<and> c \<in> set (ch # rest)
            then Some (count_list (ch # rest) c + (case map_of (chars r) c of None \<Rightarrow> 0 | Some e \<Rightarrow> count e))
            else map_option count (map_of (chars r) c))" for c
      using cnt [of c] False by auto
    ultimately show ?thesis
      unfolding step using r' by blast
  next
    case True
    define nfo where "nfo = (case lookup_info ch of Some n \<Rightarrow> n | None \<Rightarrow> controlInfo ch)"
    from record_char_result [of ch nfo i r] obtain r1 e1 where
      r1: "record_char ch nfo i r = Inr r1" and t1: "dtotal r1 = dtotal r + 1"
      and m1: "map_of (chars r1) = (map_of (chars r))(ch \<mapsto> e1)"
      and c1: "count e1 = Suc (case map_of (chars r) ch of None \<Rightarrow> 0 | Some e \<Rightarrow> count e)"
      by blast
    have step: "detect_loop inc (ch # rest) i r = detect_loop inc rest (i + 1) r1"
      using True r1 by (auto simp: shouldAnnotate_def nfo_def split: option.splits if_splits)
    have k1: "map_option count (map_of (chars r1) c) =
        (if c = ch then Some (Suc (case map_of (chars r) ch of None \<Rightarrow> 0 | Some e \<Rightarrow> count e))
         else map_option count (map_of (chars r) c))" for c
      using m1 c1 by simp
    from Cons.IH [of "i + 1" r1] obtain r' where
      r': "detect_loop inc rest (i + 1) r1 = Inr r'"
      and tot: "dtotal r' = dtotal r1 + length (filter (shouldAnnotate inc) rest)"
      and cnt: "\<And>c. map_option count (map_of (chars r') c) =
           (if shouldAnnotate inc c \<and> c \<in> set rest
            then Some (count_list rest c + (case map_of (chars r1) c of None \<Rightarrow> 0 | Some e \<Rightarrow> count e))
            else map_option count (map_of (chars r1) c))"
      by blast
    have "dtotal r' = dtotal r + length (filter (shouldAnnotate inc) (ch # rest))"
      using tot True t1 by simp
    moreover have "map_option count (map_of (chars r') c) =
           (if shouldAnnotate inc c \<and> c \<in> set (ch # rest)
            then Some (count_list (ch # rest) c + (case map_of (chars r) c of None \<Rightarrow> 0 | Some e \<Rightarrow> count e))
            else map_option count (map_of (chars r) c))" for c
      using cnt [of c] k1 [of c] True
      by (cases "map_of (chars r1) c"; cases "map_of (chars r) c") (auto split: if_splits)
    ultimately show ?thesis
      unfolding step using r' by blast
  qed
qed

lemma detect_result:
  "\<exists>r. detect str options = Inr r
     \<and> dtotal r = length (filter (shouldAnnotate (truthy (includeFormatting options))) str)
     \<and> (\<forall>c. map_option count (map_of (chars r) c) =
           (if shouldAnnotate (truthy (includeFormatting options)) c \<and> c \<in> set str
            then Some (count_list str c) else None))"
proof -
  have inc: "(case includeFormatting options of Some b \<Rightarrow> b | None \<Rightarrow> False)
      = truthy (includeFormatting options)"
    by (simp add: truthy_def)
  from detect_loop_inv [of "truthy (includeFormatting options)" str 0 "\<lparr>dtotal = 0, chars = []\<rparr>"]
  obtain r where "detect str options = Inr r"
    and "dtotal r = length (filter (shouldAnnotate (truthy (includeFormatting options))) str)"
    and "\<And>c. map_option count (map_of (chars r) c) =
           (if shouldAnnotate (truthy (includeFormatting options)) c \<and> c \<in> set str
            then Some (count_list str c) else None)"
    unfolding detect_def Let_def inc by auto
  then show ?thesis by blast
qed

lemma distinct_INVISIBLE_CHARS: "distinct (map fst INVISIBLE_CHARS)"
  by (simp add: INVISIBLE_CHARS_def)

lemma formatting_not_control:
  "\<forall>p \<in> set INVISIBLE_CHARS. category (snd p) = Formatting \<longrightarrow> \<not> isControl (fst p)"
  by (simp add: INVISIBLE_CHARS_def isControl_def)

lemma INVISIBLE_REGEX_iff: "INVISIBLE_REGEX c \<longleftrightarrow> shouldAnnotate False c"
proof (cases "lookup_info c")
  case None
  then have "c \<notin> fst ` set INVISIBLE_CHARS"
    by (simp add: lookup_info_def map_of_eq_None_iff)
  then have "c \<notin> set STRIPPABLE_CHARS"
    by (auto simp: STRIPPABLE_CHARS_def)
  with None show ?thesis
    by (simp add: INVISIBLE_REGEX_def shouldAnnotate_def isControl_def)
next
  case (Some nfo)
  then have mem: "(c, nfo) \<in> set INVISIBLE_CHARS"
    by (auto simp: lookup_info_def dest: map_of_SomeD)
  have "c \<in> set STRIPPABLE_CHARS \<longleftrightarrow> category nfo \<noteq> Formatting"
  proof
    assume "c \<in> set STRIPPABLE_CHARS"
    then obtain v where v: "(c, v) \<in> set INVISIBLE_CHARS" "category v \<noteq> Formatting"
      by (auto simp: STRIPPABLE_CHARS_def)
    from distinct_INVISIBLE_CHARS v(1) have "map_of INVISIBLE_CHARS c = Some v"
      by (rule map_of_is_SomeI)
    with Some v(2) show "category nfo \<noteq> Formatting" by (simp add: lookup_info_def)
  next
    assume "category nfo \<noteq> Formatting"
    with mem show "c \<in> set STRIPPABLE_CHARS"
      by (force simp: STRIPPABLE_CHARS_def)
  qed
  moreover have "category nfo = Formatting \<Longrightarrow> \<not> isControl c"
    using formatting_not_control mem by force
  ultimately show ?thesis using Some
    by (auto simp: INVISIBLE_REGEX_def shouldAnnotate_def isControl_def FORMATTING_CATEGORIES_def)
qed

lemma stripped_no_invisible: "\<forall>c \<in> set (stripped str options). \<not> INVISIBLE_REGEX c"
proof -
  let ?h = "if truthy (stripHTML options) then strip_html str else str"
  have "set (replace_global SUPPLEMENTARY_REGEX [] (filter (\<lambda>c. \<not> INVISIBLE_REGEX c) ?h))
      \<subseteq> set (filter (\<lambda>c. \<not> INVISIBLE_REGEX c) ?h) \<union> set []"
    by (rule replace_global_set)
  then have "set (stripped str options) \<subseteq> set (filter (\<lambda>c. \<not> INVISIBLE_REGEX c) ?h)"
    unfolding stripped_def by simp
  then show ?thesis by auto
qed

lemma space_not_invisible: "\<not> INVISIBLE_REGEX 0x0020"
  by (simp add: INVISIBLE_REGEX_def STRIPPABLE_CHARS_def INVISIBLE_CHARS_def)

lemma tidy_set:
  "set (replace_global match_spaces [0x0020] (replace_global match_trailing [] s)) \<subseteq> insert 0x0020 (set s)"
proof -
  have "set (replace_global match_spaces [0x0020] (replace_global match_trailing [] s))
      \<subseteq> set (replace_global match_trailing [] s) \<union> set [0x0020]"
    by (rule replace_global_set)
  moreover have "set (replace_global match_trailing [] s) \<subseteq> set s \<union> set []"
    by (rule replace_global_set)
  ultimately show ?thesis by auto
qed

text \<open>
  Claim C2. With \<^verbatim>\<open>includeFormatting\<close> off, \<^verbatim>\<open>detect\<close> returns a result whose entries
  are exactly the characters of the text that are named in the registry with a category
  other than \<^verbatim>\<open>formatting\<close>, or are generic C0/C1 controls, and none of them occurs
  in the text that \<^verbatim>\<open>clean\<close> returns under the default options. The runtime's NFC is
  assumed not to introduce a character of the strippable set into a text that has none.
\<close>

theorem detect_clean_agree:
  assumes "\<not> truthy (includeFormatting dopts)"
    and "\<forall>s. (\<forall>c \<in> set s. \<not> INVISIBLE_REGEX c) \<longrightarrow> (\<forall>c \<in> set (nfc s). \<not> INVISIBLE_REGEX c)"
  shows "\<exists>r. detect str dopts = Inr r
     \<and> (\<forall>c. map_of (chars r) c \<noteq> None \<longleftrightarrow>
            c \<in> set str \<and> (case lookup_info c of
                              Some nfo \<Rightarrow> category nfo \<noteq> Formatting
                            | None \<Rightarrow> isControl c))
     \<and> (\<forall>c. map_of (chars r) c \<noteq> None \<longrightarrow> c \<notin> set (clean nfc str default_options))"
proof -
  from detect_result [of str dopts] assms(1) obtain r where
    r: "detect str dopts = Inr r"
    and cnt: "\<And>c. map_option count (map_of (chars r) c) =
               (if shouldAnnotate False c \<and> c \<in> set str then Some (count_list str c) else None)"
    by auto
  have keys: "map_of (chars r) c \<noteq> None \<longleftrightarrow> c \<in> set str \<and> shouldAnnotate False c" for c
    using cnt [of c] by (cases "map_of (chars r) c") (auto split: if_splits)
  have sa: "shouldAnnotate False c \<longleftrightarrow>
      (case lookup_info c of Some nfo \<Rightarrow> category nfo \<noteq> Formatting | None \<Rightarrow> isControl c)" for c
    by (simp add: shouldAnnotate_def FORMATTING_CATEGORIES_def split: option.splits)
  have nf: "not_false (normalize default_options)" "\<not> truthy (fixHomoglyphs default_options)"
    by (simp_all add: default_options_def not_false_def truthy_def)
  have "\<forall>c \<in> set (nfc (stripped str default_options)). \<not> INVISIBLE_REGEX c"
    using assms(2) stripped_no_invisible by blast
  moreover have "set (clean nfc str default_options)
      \<subseteq> insert 0x0020 (set (nfc (stripped str default_options)))"
    unfolding clean_stages finish_def using nf tidy_set by simp
  ultimately have out: "\<forall>c \<in> set (clean nfc str default_options). \<not> INVISIBLE_REGEX c"
    using space_not_invisible by auto
  have "c \<notin> set (clean nfc str default_options)" if "map_of (chars r) c \<noteq> None" for c
    using that keys [of c] out by (auto simp: INVISIBLE_REGEX_iff)
  with r keys sa show ?thesis by auto
qed

lemma nfc_ascii_qa_no_invisible:
  "(\<forall>c \<in> set s. \<not> INVISIBLE_REGEX c) \<Longrightarrow> (\<forall>c \<in> set (nfc_ascii_qa s). \<not> INVISIBLE_REGEX c)"
proof -
  have "\<not> INVISIBLE_REGEX 0x0915" "\<not> INVISIBLE_REGEX 0x093C"
    by (simp_all add: INVISIBLE_REGEX_def STRIPPABLE_CHARS_def INVISIBLE_CHARS_def)
  then show "(\<forall>c \<in> set s. \<not> INVISIBLE_REGEX c) \<Longrightarrow> (\<forall>c \<in> set (nfc_ascii_qa s). \<not> INVISIBLE_REGEX c)"
    by (auto simp: nfc_ascii_qa_def split: if_splits)
qed

theorem detect_clean_agree_witness:
  "\<not> truthy (includeFormatting \<lparr>includeFormatting = Some False\<rparr>)
   \<and> (\<forall>s. if list_all (\<lambda>c. \<not> INVISIBLE_REGEX c) s
           then list_all (\<lambda>c. \<not> INVISIBLE_REGEX c) (nfc_ascii_qa s) else True)
   \<and> (\<exists>r. detect [0x48, 0x200B, 0x0A, 0x01, 0x200B] \<lparr>includeFormatting = Some False\<rparr> = Inr r
        \<and> map_of (chars r) 0x200B \<noteq> None \<and> map_of (chars r) 0x01 \<noteq> None
        \<and> map_of (chars r) 0x0A = None
        \<and> 0x200B \<notin> set (clean nfc_ascii_qa [0x48, 0x200B, 0x0A, 0x01, 0x200B] default_options)
        \<and> 0x01 \<notin> set (clean nfc_ascii_qa [0x48, 0x200B, 0x0A, 0x01, 0x200B] default_options))"
proof -
  let ?s = "[0x48, 0x200B, 0x0A, 0x01, 0x200B] :: jstring"
  let ?o = "\<lparr>includeFormatting = Some False\<rparr>"
  have a: "\<not> truthy (includeFormatting ?o)" by (simp add: truthy_def)
  have b: "\<forall>s. (\<forall>c \<in> set s. \<not> INVISIBLE_REGEX c) \<longrightarrow> (\<forall>c \<in> set (nfc_ascii_qa s). \<not> INVISIBLE_REGEX c)"
    using nfc_ascii_qa_no_invisible by blast
  from detect_clean_agree [of ?o nfc_ascii_qa ?s, OF a b] obtain r where
    r: "detect ?s ?o = Inr r"
    and keys: "\<And>c. map_of (chars r) c \<noteq> None \<longleftrightarrow>
            c \<in> set ?s \<and> (case lookup_info c of
                              Some nfo \<Rightarrow> category nfo \<noteq> Formatting
                            | None \<Rightarrow> isControl c)"
    and out: "\<And>c. map_of (chars r) c \<noteq> None \<Longrightarrow> c \<notin> set (clean nfc_ascii_qa ?s default_options)"
    by blast
  have k1: "map_of (chars r) 0x200B \<noteq> None"
    unfolding keys by (simp add: lookup_info_def INVISIBLE_CHARS_def)
  have k2: "map_of (chars r) 0x01 \<noteq> None"
    unfolding keys by (simp add: lookup_info_def INVISIBLE_CHARS_def isControl_def)
  have k3: "\<not> map_of (chars r) 0x0A \<noteq> None"
    unfolding keys by (simp add: lookup_info_def INVISIBLE_CHARS_def)
  from a b r k1 k2 k3 out [OF k1] out [OF k2] show ?thesis
    by (auto simp: list_all_iff)
qed

subsection \<open>The reveal renderer\<close>

lemma utf16_append: "utf16 (a @ b) = utf16 a @ utf16 b"
  by (simp add: utf16_def)

lemma unit_of_char_inj: "(of_nat (of_char c) :: u16) = of_nat (of_char d) \<longleftrightarrow> c = d"
proof -
  have u: "unat (of_nat (of_char x) :: u16) = of_char x" for x :: char
  proof -
    have "(of_char x :: nat) < 256" by simp
    then have "(of_char x :: nat) < 65536" by linarith
    then have "(of_char x :: nat) mod 65536 = of_char x" by (rule mod_less)
    then show ?thesis by (simp add: unat_of_nat)
  qed
  show ?thesis
  proof
    assume "(of_nat (of_char c) :: u16) = of_nat (of_char d)"
    then have "unat (of_nat (of_char c) :: u16) = unat (of_nat (of_char d) :: u16)" by simp
    then have "(of_char c :: nat) = of_char d" by (simp only: u)
    then show "c = d" by simp
  qed simp
qed

lemma utf16_mem: "of_nat (of_char c) \<in> set (utf16 s) \<longleftrightarrow> c \<in> set s"
  by (auto simp: utf16_def unit_of_char_inj)

lemma lt_unit: "(0x003C :: u16) = of_nat (of_char (CHR ''<''))"
  and gt_unit: "(0x003E :: u16) = of_nat (of_char (CHR ''>''))"
  by simp_all

lemma utf16_no_lt: "0x003C \<notin> set (utf16 s) \<longleftrightarrow> CHR ''<'' \<notin> set s"
  unfolding lt_unit utf16_mem ..

lemma utf16_no_gt: "0x003E \<notin> set (utf16 s) \<longleftrightarrow> CHR ''>'' \<notin> set s"
  unfolding gt_unit utf16_mem ..

lemma replace_char_append: "replace_char c rep (a @ b) = replace_char c rep a @ replace_char c rep b"
  by (simp add: replace_char_def)

lemma replace_char_concat:
  "replace_char c rep (concat (map f s)) = concat (map (\<lambda>d. replace_char c rep (f d)) s)"
  by (induction s) (simp_all add: replace_char_append, simp add: replace_char_def)

lemma replace_char_as_concat: "replace_char c rep s = concat (map (\<lambda>d. if d = c then rep else [d]) s)"
  by (simp add: replace_char_def)

lemma escape_unit_chain:
  \<open>replace_char 0x0027 (utf16 ''&#039;'')
     (replace_char 0x0022 (utf16 ''&quot;'')
       (replace_char 0x003E (utf16 ''&gt;'')
         (replace_char 0x003C (utf16 ''&lt;'')
           (if d = 0x0026 then utf16 ''&amp;'' else [d])))) = escape_unit d\<close>
  by (simp add: escape_unit_def replace_char_def utf16_def)

lemma escapeHTML_concat: "escapeHTML s = concat (map escape_unit s)"
proof -
  have "escapeHTML s = concat (map (\<lambda>d.
     replace_char 0x0027 (utf16 ''&#039;'')
     (replace_char 0x0022 (utf16 ''&quot;'')
       (replace_char 0x003E (utf16 ''&gt;'')
         (replace_char 0x003C (utf16 ''&lt;'')
           (if d = 0x0026 then utf16 ''&amp;'' else [d]))))) s)"
    unfolding escapeHTML_def
    by (subst replace_char_as_concat [of "0x0026"]) (simp only: replace_char_concat)
  then show ?thesis by (simp only: escape_unit_chain)
qed

lemma escapeHTML_append: "escapeHTML (a @ b) = escapeHTML a @ escapeHTML b"
  by (simp add: escapeHTML_concat)

lemma escape_unit_no_lt: "0x003C \<notin> set (escape_unit c)"
  by (simp add: escape_unit_def utf16_def)

lemma escapeHTML_no_lt: "\<forall>x \<in> set (escapeHTML s). x \<noteq> 0x003C"
  using escape_unit_no_lt by (auto simp: escapeHTML_concat)

lemma unescape_escape_unit: "unescapeHTML (escape_unit c @ r) = c # unescapeHTML r"
  by (simp add: escape_unit_def utf16_def starts_with_def)

lemma unescape_escapeHTML: "unescapeHTML (escapeHTML s @ r) = s @ unescapeHTML r"
  by (induction s) (simp_all add: escapeHTML_concat unescape_escape_unit)

lemma takeWhile_stop:
  "\<forall>x \<in> set xs. P x \<Longrightarrow> \<not> P y \<Longrightarrow> takeWhile P (xs @ y # ys) = xs"
  by (induction xs) auto

lemma dropWhile_stop:
  "\<forall>x \<in> set xs. P x \<Longrightarrow> \<not> P y \<Longrightarrow> dropWhile P (xs @ y # ys) = y # ys"
  by (induction xs) auto

lemma spans_visible_span:
  "spans (visible_span buf @ rest)
     = map_option ((#) (utf16 ''char-visible'', escapeHTML buf)) (spans rest)"
proof -
  let ?s = "visible_span buf @ rest"
  have s: \<open>?s = utf16 ''<span class="'' @ utf16 ''char-visible'' @ 0x0022 # 0x003E # escapeHTML buf
      @ 0x003C # utf16 ''/span>'' @ rest\<close>
    by (simp add: visible_span_def utf16_def)
  have ne: "?s \<noteq> []" by (simp add: visible_span_def utf16_def)
  have st: \<open>starts_with (utf16 ''<span class="'') ?s\<close>
    unfolding s by (simp add: starts_with_def utf16_def)
  have s1: \<open>drop 13 ?s = utf16 ''char-visible'' @ 0x0022 # 0x003E # escapeHTML buf
      @ 0x003C # utf16 ''/span>'' @ rest\<close>
    unfolding s by (simp add: utf16_def)
  have cls: "takeWhile (\<lambda>d. d \<noteq> 0x0022) (drop 13 ?s) = utf16 ''char-visible''"
    unfolding s1 by (rule takeWhile_stop) (simp_all add: utf16_def)
  have s2: "dropWhile (\<lambda>d. d \<noteq> 0x003E) (drop 13 ?s)
      = 0x003E # escapeHTML buf @ 0x003C # utf16 ''/span>'' @ rest"
    unfolding s1 by (simp add: utf16_def)
  have content: "takeWhile (\<lambda>d. d \<noteq> 0x003C) (escapeHTML buf @ 0x003C # utf16 ''/span>'' @ rest)
      = escapeHTML buf"
    by (rule takeWhile_stop) (use escapeHTML_no_lt in auto)
  have s4: "dropWhile (\<lambda>d. d \<noteq> 0x003C) (escapeHTML buf @ 0x003C # utf16 ''/span>'' @ rest)
      = 0x003C # utf16 ''/span>'' @ rest"
    by (rule dropWhile_stop) (use escapeHTML_no_lt in auto)
  have cl: "starts_with (utf16 ''</span>'') (0x003C # utf16 ''/span>'' @ rest)"
    by (simp add: starts_with_def utf16_def)
  have d7: "drop 7 (0x003C # utf16 ''/span>'' @ rest) = rest"
    by (simp add: utf16_def)
  show ?thesis
    by (subst spans.simps) (simp only: ne st cls s2 content s4 cl d7 Let_def list.case if_False if_True not_True_eq_False)
qed

lemma spans_annotation_span:
  assumes "cssClass = ''char-hidden'' \<or> cssClass = ''char-formatting''"
    and "CHR ''>'' \<notin> set charName" and "CHR ''>'' \<notin> set label" and "CHR ''<'' \<notin> set label"
  shows "spans (annotation_span cssClass charName label @ rest)
     = map_option ((#) (utf16 cssClass, utf16 (''['' @ label @ '']''))) (spans rest)"
proof -
  let ?s = "annotation_span cssClass charName label @ rest"
  let ?attr = \<open>utf16 '' title='' @ 0x0022 # utf16 charName @ utf16 '' ('' @ utf16 label @ utf16 '')'' @ [0x0022]\<close>
  let ?body = "utf16 (''['' @ label @ '']'')"
  have s: \<open>?s = utf16 ''<span class="'' @ utf16 cssClass @ 0x0022 # ?attr @ 0x003E # ?body
      @ 0x003C # utf16 ''/span>'' @ rest\<close>
    by (simp add: annotation_span_def utf16_def)
  have ne: "?s \<noteq> []" unfolding s by (simp add: utf16_def)
  have st: \<open>starts_with (utf16 ''<span class="'') ?s\<close>
    unfolding s by (simp add: starts_with_def utf16_def)
  have s1: \<open>drop 13 ?s = utf16 cssClass @ 0x0022 # ?attr @ 0x003E # ?body
      @ 0x003C # utf16 ''/span>'' @ rest\<close>
    unfolding s by (simp add: utf16_def)
  have cls: "takeWhile (\<lambda>d. d \<noteq> 0x0022) (drop 13 ?s) = utf16 cssClass"
    unfolding s1 by (rule takeWhile_stop) (use assms(1) in \<open>auto simp: utf16_def\<close>)
  have nogt: "\<forall>x \<in> set (utf16 cssClass @ 0x0022 # ?attr). x \<noteq> 0x003E"
  proof -
    have "0x003E \<notin> set (utf16 cssClass)" using assms(1) by (auto simp: utf16_def)
    moreover have "0x003E \<notin> set (utf16 charName)" "0x003E \<notin> set (utf16 label)"
      using assms(2,3) by (simp_all add: utf16_no_gt)
    moreover have "0x003E \<notin> set (utf16 '' title='')" "0x003E \<notin> set (utf16 '' ('')"
      "0x003E \<notin> set (utf16 '')'')"
      by (simp_all add: utf16_def)
    ultimately show ?thesis by auto
  qed
  have s1': \<open>drop 13 ?s = (utf16 cssClass @ 0x0022 # ?attr) @ 0x003E # ?body
      @ 0x003C # utf16 ''/span>'' @ rest\<close>
    unfolding s1 by simp
  have s2: "dropWhile (\<lambda>d. d \<noteq> 0x003E) (drop 13 ?s)
      = 0x003E # ?body @ 0x003C # utf16 ''/span>'' @ rest"
    unfolding s1' by (rule dropWhile_stop) (use nogt in auto)
  have nolt: "\<forall>x \<in> set ?body. x \<noteq> 0x003C"
  proof -
    have "0x003C \<notin> set (utf16 label)" using assms(4) by (simp add: utf16_no_lt)
    then show ?thesis by (auto simp: utf16_def)
  qed
  have content: "takeWhile (\<lambda>d. d \<noteq> 0x003C) (?body @ 0x003C # utf16 ''/span>'' @ rest) = ?body"
    by (rule takeWhile_stop) (use nolt in auto)
  have s4: "dropWhile (\<lambda>d. d \<noteq> 0x003C) (?body @ 0x003C # utf16 ''/span>'' @ rest)
      = 0x003C # utf16 ''/span>'' @ rest"
    by (rule dropWhile_stop) (use nolt in auto)
  have cl: "starts_with (utf16 ''</span>'') (0x003C # utf16 ''/span>'' @ rest)"
    by (simp add: starts_with_def utf16_def)
  have d7: "drop 7 (0x003C # utf16 ''/span>'' @ rest) = rest"
    by (simp add: utf16_def)
  show ?thesis
    by (subst spans.simps)
      (simp only: ne st cls s2 content s4 cl d7 Let_def list.case if_False if_True
         not_True_eq_False)
qed

lemma registry_labels_plain:
  "\<forall>p \<in> set INVISIBLE_CHARS. CHR ''>'' \<notin> set (name (snd p)) \<and> CHR ''>'' \<notin> set (code (snd p))
      \<and> CHR ''<'' \<notin> set (code (snd p))"
  by (simp add: INVISIBLE_CHARS_def)

lemma lookup_info_plain:
  "lookup_info ch = Some nfo \<Longrightarrow>
     CHR ''>'' \<notin> set (name nfo) \<and> CHR ''>'' \<notin> set (code nfo) \<and> CHR ''<'' \<notin> set (code nfo)"
  using registry_labels_plain by (force simp: lookup_info_def dest!: map_of_SomeD)

lemma hex_digit_mem: "d < 16 \<Longrightarrow> hex_digit d \<in> set ''0123456789ABCDEF''"
  unfolding hex_digit_def by (rule nth_mem) simp

lemma to_hex_digits: "set (to_hex n) \<subseteq> set ''0123456789ABCDEF''"
proof (induction n rule: to_hex.induct)
  case (1 n)
  show ?case
  proof (cases "n < 16")
    case True
    with hex_digit_mem [of n] show ?thesis by (subst to_hex.simps) simp
  next
    case False
    have "hex_digit (n mod 16) \<in> set ''0123456789ABCDEF''"
      by (rule hex_digit_mem) simp
    with 1 [OF False] False show ?thesis by (subst to_hex.simps) simp
  qed
qed

lemma code_label_plain: "CHR ''>'' \<notin> set (code_label ch) \<and> CHR ''<'' \<notin> set (code_label ch)"
proof -
  have "set (code_label ch) \<subseteq> set ''U+0'' \<union> set (to_hex (unat ch))"
    by (auto simp: code_label_def padStart_def)
  with to_hex_digits [of "unat ch"] have "set (code_label ch) \<subseteq> set ''U+0'' \<union> set ''0123456789ABCDEF''"
    by blast
  then show ?thesis by auto
qed

lemma revealHTML_flush:
  "revealHTML str options = flush (reveal_loop (not_false (includeFormatting options)) str [] [])"
  by (simp add: revealHTML_def flush_def Let_def split: prod.splits)

lemma visible_content_append:
  "visible_content (a @ b) = visible_content a @ visible_content b"
  by (simp add: visible_content_def)

lemma map_option_append_Nil: "map_option ((@) []) x = x"
  by (cases x) simp_all

lemma map_option_append_Cons:
  "map_option ((@) sp) (map_option ((#) a) x) = map_option ((@) (sp @ [a])) x"
  by (cases x) simp_all

lemma reveal_loop_inv:
  assumes "\<forall>r. spans (concat parts @ r) = map_option ((@) sp) (spans r)"
    and "visible_content sp = escapeHTML v"
  shows "\<exists>sp'. (\<forall>r. spans (flush (reveal_loop inc rest parts buf) @ r) = map_option ((@) sp') (spans r))
     \<and> visible_content sp' = escapeHTML (v @ buf @ filter (\<lambda>ch. \<not> shouldAnnotate inc ch) rest)"
  using assms
proof (induction rest arbitrary: parts buf sp v)
  case Nil
  show ?case
  proof (cases "buf = []")
    case True
    with Nil show ?thesis by (auto simp: flush_def)
  next
    case False
    let ?sp = "sp @ [(utf16 ''char-visible'', escapeHTML buf)]"
    have "spans (concat (parts @ [visible_span buf]) @ r) = map_option ((@) ?sp) (spans r)" for r
      using Nil(1) by (simp add: spans_visible_span map_option_append_Cons)
    moreover have "visible_content ?sp = escapeHTML (v @ buf)"
      using Nil(2) by (simp add: visible_content_append escapeHTML_append visible_content_def)
    ultimately show ?thesis using False by (auto simp: flush_def)
  qed
next
  case (Cons ch rest)
  show ?case
  proof (cases "shouldAnnotate inc ch")
    case False
    then have step: "reveal_loop inc (ch # rest) parts buf = reveal_loop inc rest parts (buf @ [ch])"
      by simp
    from Cons.IH [OF Cons.prems, of "buf @ [ch]"] False show ?thesis
      unfolding step by simp
  next
    case True
    define label where "label = (case lookup_info ch of Some nfo \<Rightarrow> code nfo | None \<Rightarrow> code_label ch)"
    define charName where "charName = (case lookup_info ch of Some nfo \<Rightarrow> name nfo
                            | None \<Rightarrow> ''Control Character'')"
    define cssClass where "cssClass = (case lookup_info ch of
                              Some nfo \<Rightarrow> if category nfo \<in> set FORMATTING_CATEGORIES
                                          then ''char-formatting'' else ''char-hidden''
                            | None \<Rightarrow> ''char-hidden'')"
    define parts1 where "parts1 = (if buf \<noteq> [] then parts @ [visible_span buf] else parts)"
    have step: "reveal_loop inc (ch # rest) parts buf
        = reveal_loop inc rest (parts1 @ [annotation_span cssClass charName label]) []"
      using True by (simp add: Let_def label_def charName_def cssClass_def parts1_def)
    have c: "cssClass = ''char-hidden'' \<or> cssClass = ''char-formatting''"
      by (auto simp: cssClass_def split: option.splits)
    have n: "CHR ''>'' \<notin> set charName"
      using lookup_info_plain by (auto simp: charName_def split: option.splits)
    have l: "CHR ''>'' \<notin> set label" "CHR ''<'' \<notin> set label"
      using lookup_info_plain code_label_plain by (auto simp: label_def split: option.splits)
    define sp1 where "sp1 = (if buf \<noteq> [] then sp @ [(utf16 ''char-visible'', escapeHTML buf)] else sp)"
    have p1: "spans (concat parts1 @ r) = map_option ((@) sp1) (spans r)" for r
      using Cons.prems(1)
      by (simp add: parts1_def sp1_def spans_visible_span map_option_append_Cons)
    have v1: "visible_content sp1 = escapeHTML (v @ buf)"
      using Cons.prems(2)
      by (simp add: sp1_def visible_content_append escapeHTML_append visible_content_def escapeHTML_concat)
    let ?a = "(utf16 cssClass, utf16 (''['' @ label @ '']''))"
    have ne: "utf16 cssClass \<noteq> utf16 ''char-visible''"
      using c by (auto simp: utf16_def)
    have p2: "spans (concat (parts1 @ [annotation_span cssClass charName label]) @ r)
        = map_option ((@) (sp1 @ [?a])) (spans r)" for r
      using p1 by (simp add: spans_annotation_span [OF c n l] map_option_append_Cons)
    have v2: "visible_content (sp1 @ [?a]) = escapeHTML (v @ buf)"
      using v1 ne by (simp add: visible_content_append visible_content_def)
    from Cons.IH [of "parts1 @ [annotation_span cssClass charName label]" "sp1 @ [?a]" "v @ buf" "[]"] p2 v2
    obtain sp' where
      "\<forall>r. spans (flush (reveal_loop inc rest (parts1 @ [annotation_span cssClass charName label]) []) @ r)
            = map_option ((@) sp') (spans r)"
      "visible_content sp' = escapeHTML ((v @ buf) @ [] @ filter (\<lambda>ch. \<not> shouldAnnotate inc ch) rest)"
      by blast
    then show ?thesis unfolding step using True by auto
  qed
qed

lemma spans_Nil: "spans [] = Some []"
  by (subst spans.simps) simp

text \<open>
  Claim C8. The markup returned by \<^verbatim>\<open>revealHTML\<close> reads back as a sequence of spans;
  with the annotation spans removed, the concatenated contents of the visible-run spans,
  unescaped, are exactly the characters of the text that were not annotated, in order.
\<close>

theorem revealHTML_round_trip:
  "\<exists>sp. spans (revealHTML str options) = Some sp
     \<and> unescapeHTML (visible_content sp)
       = filter (\<lambda>ch. \<not> shouldAnnotate (not_false (includeFormatting options)) ch) str"
proof -
  let ?inc = "not_false (includeFormatting options)"
  have "\<forall>r. spans (concat [] @ r) = map_option ((@) []) (spans r)"
    by (simp add: map_option_append_Nil)
  moreover have "visible_content [] = escapeHTML []"
    by (simp add: visible_content_def escapeHTML_concat)
  ultimately obtain sp where
    sp: "\<forall>r. spans (flush (reveal_loop ?inc str [] []) @ r) = map_option ((@) sp) (spans r)"
    and vc: "visible_content sp = escapeHTML ([] @ [] @ filter (\<lambda>ch. \<not> shouldAnnotate ?inc ch) str)"
    using reveal_loop_inv [of "[]" "[]" "[]" ?inc str "[]"] by blast
  from sp have "spans (flush (reveal_loop ?inc str [] []) @ []) = map_option ((@) sp) (spans [])"
    by blast
  then have "spans (revealHTML str options) = Some sp"
    by (simp add: revealHTML_flush spans_Nil)
  moreover have "unescapeHTML (visible_content sp) = filter (\<lambda>ch. \<not> shouldAnnotate ?inc ch) str"
    using unescape_escapeHTML [of "filter (\<lambda>ch. \<not> shouldAnnotate ?inc ch) str" "[]"] vc by simp
  ultimately show ?thesis by blast
qed

theorem revealHTML_round_trip_witness:
  "\<exists>sp. spans (revealHTML [0x61, 0x3C, 0x200B, 0x0A, 0x62] \<lparr>includeFormatting = None\<rparr>) = Some sp
     \<and> unescapeHTML (visible_content sp) = [0x61, 0x3C, 0x62]"
proof -
  have "filter (\<lambda>ch. \<not> shouldAnnotate (not_false (includeFormatting \<lparr>includeFormatting = None\<rparr>)) ch)
      [0x61, 0x3C, 0x200B, 0x0A, 0x62] = [0x61, 0x3C, 0x62]"
    by (simp add: shouldAnnotate_def not_false_def lookup_info_def INVISIBLE_CHARS_def isControl_def
        FORMATTING_CATEGORIES_def)
  with revealHTML_round_trip [of "[0x61, 0x3C, 0x200B, 0x0A, 0x62]" "\<lparr>includeFormatting = None\<rparr>"]
  show ?thesis by simp
qed

subsection \<open>Cleaning twice\<close>

lemma match_trailing_None_Cons:
  "match_trailing (c # x) = None \<longleftrightarrow>
     \<not> (c = 0x0020 \<or> c = 0x0009) \<or> (match_trailing x = None \<and> \<not> at_line_end x)"
  by (auto split: option.splits)

lemma no_match_head: "no_match m s \<Longrightarrow> s \<noteq> [] \<Longrightarrow> m s = None"
  by (cases s) auto

lemma no_match_trailing_head: "no_match match_trailing s \<Longrightarrow> match_trailing s = None"
  by (cases s) auto

lemma hspace_not_eol: "c = 0x0020 \<or> c = 0x0009 \<Longrightarrow> \<not> isLineTerminator c"
  by (auto simp: isLineTerminator_def)

lemma strip_trailing_not_eol:
  assumes "\<not> at_line_end s" and "match_trailing s = None"
  shows "\<not> at_line_end (replace_global match_trailing [] s)"
proof (cases s)
  case Nil
  with assms(1) show ?thesis by (simp add: at_line_end_def)
next
  case (Cons d t)
  with assms show ?thesis by (simp add: at_line_end_def)
qed

lemma no_match_strip_trailing: "no_match match_trailing (replace_global match_trailing [] s)"
proof (induction match_trailing "[] :: jstring" s rule: replace_global.induct)
  case 1
  then show ?case by simp
next
  case (2 c cs)
  show ?case
  proof (cases "match_trailing (c # cs)")
    case (Some n)
    with 2(2) [OF Some] show ?thesis by simp
  next
    case None
    have ih: "no_match match_trailing (replace_global match_trailing [] cs)"
      using 2(1) [OF None] .
    have "match_trailing (c # replace_global match_trailing [] cs) = None"
    proof (cases "c = 0x0020 \<or> c = 0x0009")
      case False
      then show ?thesis by simp
    next
      case True
      with None have a: "match_trailing cs = None" "\<not> at_line_end cs"
        using match_trailing_None_Cons [of c cs] by auto
      from strip_trailing_not_eol [OF a(2) a(1)] no_match_trailing_head [OF ih]
      show ?thesis unfolding match_trailing_None_Cons by simp
    qed
    with ih None show ?thesis by simp
  qed
qed

lemma match_spaces_None_iff:
  "match_spaces s = None \<longleftrightarrow> length (takeWhile (\<lambda>d. d = 0x0020) s) < 2"
  by (auto simp: match_spaces_def Let_def)

lemma match_spaces_plain_head: "d \<noteq> 0x0020 \<Longrightarrow> match_spaces (d # t) = None"
  by (simp add: match_spaces_None_iff)

lemma collapse_no_space_head:
  "no_space_head s \<Longrightarrow> no_space_head (replace_global match_spaces [0x0020] s)"
  by (cases s) (auto simp: no_space_head_def match_spaces_plain_head)

lemma no_space_head_takeWhile: "no_space_head s \<Longrightarrow> takeWhile (\<lambda>d. d = 0x0020) s = []"
  by (cases s) (auto simp: no_space_head_def)

lemma takeWhile_Nil_no_space_head: "takeWhile (\<lambda>d. d = 0x0020) s = [] \<Longrightarrow> no_space_head s"
  by (cases s) (auto simp: no_space_head_def split: if_splits)

lemma no_match_collapse: "no_match match_spaces (replace_global match_spaces [0x0020] s)"
proof (induction match_spaces "[0x0020] :: jstring" s rule: replace_global.induct)
  case 1
  then show ?case by simp
next
  case (2 c cs)
  show ?case
  proof (cases "match_spaces (c # cs)")
    case (Some n)
    from match_spaces_SomeD [OF Some] have n: "2 \<le> n"
      and d: "case drop n (c # cs) of [] \<Rightarrow> True | d # _ \<Rightarrow> d \<noteq> 0x0020" by auto
    from n have "drop n (c # cs) = drop (n - 1) cs" by (cases n) auto
    with d have "no_space_head (drop (n - 1) cs)" by (simp add: no_space_head_def)
    then have "no_space_head (replace_global match_spaces [0x0020] (drop (n - 1) cs))"
      by (rule collapse_no_space_head)
    then have "match_spaces (0x0020 # replace_global match_spaces [0x0020] (drop (n - 1) cs)) = None"
      by (simp add: match_spaces_None_iff no_space_head_takeWhile)
    with 2(2) [OF Some] Some show ?thesis by simp
  next
    case None
    have ih: "no_match match_spaces (replace_global match_spaces [0x0020] cs)"
      using 2(1) [OF None] .
    have "match_spaces (c # replace_global match_spaces [0x0020] cs) = None"
    proof (cases "c = 0x0020")
      case False
      then show ?thesis by (rule match_spaces_plain_head)
    next
      case True
      with None have "takeWhile (\<lambda>d. d = 0x0020) cs = []"
        by (simp add: match_spaces_None_iff)
      then have "no_space_head cs" by (rule takeWhile_Nil_no_space_head)
      then have "no_space_head (replace_global match_spaces [0x0020] cs)"
        by (rule collapse_no_space_head)
      with True show ?thesis by (simp add: match_spaces_None_iff no_space_head_takeWhile)
    qed
    with ih None show ?thesis by simp
  qed
qed

lemma collapse_not_eol:
  "\<not> at_line_end s \<Longrightarrow> \<not> at_line_end (replace_global match_spaces [0x0020] s)"
proof (cases s)
  case Nil
  then show "\<not> at_line_end s \<Longrightarrow> ?thesis" by (simp add: at_line_end_def)
next
  case (Cons d t)
  then show "\<not> at_line_end s \<Longrightarrow> ?thesis"
    by (cases "match_spaces (d # t)") (auto simp: at_line_end_def isLineTerminator_def)
qed

lemma no_match_trailing_collapse:
  "no_match match_trailing s \<Longrightarrow> no_match match_trailing (replace_global match_spaces [0x0020] s)"
proof (induction match_spaces "[0x0020] :: jstring" s rule: replace_global.induct)
  case 1
  then show ?case by simp
next
  case (2 c cs)
  show ?case
  proof (cases "match_spaces (c # cs)")
    case (Some n)
    from match_spaces_SomeD [OF Some] have n: "2 \<le> n" "n \<le> length (c # cs)"
      and t: "take n (c # cs) = replicate n 0x0020" by auto
    from n have dn: "drop n (c # cs) = drop (n - 1) cs" by (cases n) auto
    from n have lt: "n - 1 < length (c # cs)" by simp
    have "(c # cs) ! (n - 1) = take n (c # cs) ! (n - 1)" using n by simp
    also have "\<dots> = 0x0020" unfolding t using n by simp
    finally have nth: "(c # cs) ! (n - 1) = 0x0020" .
    have "drop (n - 1) (c # cs) = (c # cs) ! (n - 1) # drop (Suc (n - 1)) (c # cs)"
      using lt by (rule Cons_nth_drop_Suc [symmetric])
    with nth n dn have dd: "drop (n - 1) (c # cs) = 0x0020 # drop (n - 1) cs" by simp
    from no_match_drop [OF "2.prems", of "n - 1"] have nm: "no_match match_trailing (0x0020 # drop (n - 1) cs)"
      unfolding dd .
    then have rest: "no_match match_trailing (drop (n - 1) cs)" by simp
    from nm have "match_trailing (0x0020 # drop (n - 1) cs) = None" by simp
    then have ne: "\<not> at_line_end (drop (n - 1) cs)"
      unfolding match_trailing_None_Cons by simp
    have ih: "no_match match_trailing (replace_global match_spaces [0x0020] (drop (n - 1) cs))"
      using 2(2) [OF Some rest] .
    have "match_trailing (0x0020 # replace_global match_spaces [0x0020] (drop (n - 1) cs)) = None"
      unfolding match_trailing_None_Cons
      using collapse_not_eol [OF ne] no_match_trailing_head [OF ih] by simp
    with ih Some show ?thesis by simp
  next
    case None
    from "2.prems" have m: "match_trailing (c # cs) = None" and nm: "no_match match_trailing cs"
      by simp_all
    have ih: "no_match match_trailing (replace_global match_spaces [0x0020] cs)"
      using 2(1) [OF None nm] .
    have "match_trailing (c # replace_global match_spaces [0x0020] cs) = None"
    proof (cases "c = 0x0020 \<or> c = 0x0009")
      case False
      then show ?thesis by simp
    next
      case True
      with m have "\<not> at_line_end cs" using match_trailing_None_Cons [of c cs] by auto
      from collapse_not_eol [OF this] no_match_trailing_head [OF ih]
      show ?thesis unfolding match_trailing_None_Cons by simp
    qed
    with ih None show ?thesis by simp
  qed
qed

lemma tidy_no_match:
  "no_match match_trailing (tidy s)" "no_match match_spaces (tidy s)"
  unfolding tidy_def
  by (simp_all add: no_match_trailing_collapse no_match_strip_trailing no_match_collapse)

lemma tidy_fixed: "no_match match_trailing s \<Longrightarrow> no_match match_spaces s \<Longrightarrow> tidy s = s"
  by (simp add: tidy_def replace_global_no_match)

lemma tidy_idem: "tidy (tidy s) = tidy s"
  by (rule tidy_fixed) (rule tidy_no_match)+

lemma SUPPLEMENTARY_REGEX_None_iff:
  "SUPPLEMENTARY_REGEX (c # x) = None \<longleftrightarrow>
     c \<noteq> 0xDB40 \<or> (case x of [] \<Rightarrow> True | b # _ \<Rightarrow> \<not> in_supplementary_range b)"
  by (auto simp: SUPPLEMENTARY_REGEX_def in_supplementary_range_def split: list.splits)

lemma in_range_low: "in_supplementary_range b \<Longrightarrow> isLowSurrogate b"
  unfolding in_supplementary_range_def isLowSurrogate_def
  by (auto simp: word_le_nat_alt)

lemma in_range_facts:
  "in_supplementary_range b \<Longrightarrow> b \<noteq> 0x0020 \<and> \<not> isLineTerminator b \<and> b \<noteq> 0xDB40"
  unfolding in_supplementary_range_def isLineTerminator_def
  by (auto simp: word_le_nat_alt)

lemma DB40_high: "isHighSurrogate 0xDB40" "\<not> isLowSurrogate 0xDB40"
  by (simp_all add: isHighSurrogate_def isLowSurrogate_def)

text \<open>Removing the supplementary pairs of a paired text leaves no such pair.\<close>

lemma no_match_strip_supplementary:
  "paired e s \<Longrightarrow> no_match SUPPLEMENTARY_REGEX (replace_global SUPPLEMENTARY_REGEX [] s)"
proof (induction SUPPLEMENTARY_REGEX "[] :: jstring" s arbitrary: e rule: replace_global.induct)
  case 1
  then show ?case by simp
next
  case (2 c cs)
  show ?case
  proof (cases "SUPPLEMENTARY_REGEX (c # cs)")
    case (Some n)
    from paired_SUPPLEMENTARY_REGEX [OF Some "2.prems"] have n: "1 \<le> n"
      and p: "paired False (drop n (c # cs))" by auto
    from n have "drop n (c # cs) = drop (n - 1) cs" by (cases n) auto
    with p have "paired False (drop (n - 1) cs)" by simp
    from 2(2) [OF Some this] Some show ?thesis by simp
  next
    case None
    from "2.prems" obtain e' where e': "paired e' cs" by (auto split: if_splits)
    have ih: "no_match SUPPLEMENTARY_REGEX (replace_global SUPPLEMENTARY_REGEX [] cs)"
      using 2(1) [OF None e'] .
    have "SUPPLEMENTARY_REGEX (c # replace_global SUPPLEMENTARY_REGEX [] cs) = None"
    proof (cases "c = 0xDB40")
      case False
      then show ?thesis by (simp add: SUPPLEMENTARY_REGEX_None_iff)
    next
      case True
      with "2.prems" DB40_high have pt: "paired True cs" by (auto split: if_splits)
      then obtain b t where cs: "cs = b # t" and lowb: "isLowSurrogate b"
        by (cases cs) auto
      from None True cs have nr: "\<not> in_supplementary_range b"
        by (simp add: SUPPLEMENTARY_REGEX_None_iff)
      from lowb DB40_high have "b \<noteq> 0xDB40" by auto
      then have "SUPPLEMENTARY_REGEX (b # t) = None" by (simp add: SUPPLEMENTARY_REGEX_None_iff)
      then have "replace_global SUPPLEMENTARY_REGEX [] cs = b # replace_global SUPPLEMENTARY_REGEX [] t"
        unfolding cs by simp
      with nr show ?thesis by (simp add: SUPPLEMENTARY_REGEX_None_iff)
    qed
    with ih None show ?thesis by simp
  qed
qed

lemma strip_trailing_head_ok:
  "head_ok s \<Longrightarrow> head_ok (replace_global match_trailing [] s)"
proof (cases s)
  case Nil
  then show "head_ok s \<Longrightarrow> ?thesis" by simp
next
  case (Cons c cs)
  assume h: "head_ok s"
  show ?thesis
  proof (cases "match_trailing (c # cs)")
    case None
    with h Cons show ?thesis by (simp add: head_ok_def)
  next
    case (Some n)
    from match_trailing_SomeD [OF Some] have n: "1 \<le> n" and e: "at_line_end (drop n (c # cs))"
      by auto
    from n have dn: "drop n (c # cs) = drop (n - 1) cs" by (cases n) auto
    show ?thesis
    proof (cases "drop (n - 1) cs")
      case Nil
      with Some Cons show ?thesis by (simp add: head_ok_def)
    next
      case (Cons d t)
      with e dn have lt: "isLineTerminator d" by (simp add: at_line_end_def)
      then have "\<not> (d = 0x0020 \<or> d = 0x0009)" using hspace_not_eol by blast
      then have "match_trailing (d # t) = None" by simp
      then have "replace_global match_trailing [] (d # t) = d # replace_global match_trailing [] t"
        by simp
      moreover have "\<not> in_supplementary_range d" using lt in_range_facts by blast
      ultimately show ?thesis using Some \<open>s = c # cs\<close> Cons by (simp add: head_ok_def)
    qed
  qed
qed

lemma collapse_head_ok:
  "head_ok s \<Longrightarrow> head_ok (replace_global match_spaces [0x0020] s)"
proof (cases s)
  case Nil
  then show "head_ok s \<Longrightarrow> ?thesis" by simp
next
  case (Cons c cs)
  have "\<not> in_supplementary_range 0x0020" using in_range_facts by blast
  then show "head_ok s \<Longrightarrow> ?thesis" unfolding Cons
    by (cases "match_spaces (c # cs)") (auto simp: head_ok_def)
qed

lemma SUPPLEMENTARY_REGEX_head:
  "SUPPLEMENTARY_REGEX (c # x) = None \<longleftrightarrow> c \<noteq> 0xDB40 \<or> head_ok x"
  by (simp add: SUPPLEMENTARY_REGEX_None_iff head_ok_def)

lemma no_match_supplementary_replace:
  assumes "\<And>x. head_ok x \<Longrightarrow> head_ok (replace_global m rep x)"
    and "\<And>s n. m s = Some n \<Longrightarrow> 1 \<le> n"
    and "no_match SUPPLEMENTARY_REGEX rep" and "rep = [] \<or> last rep \<noteq> 0xDB40"
  shows "no_match SUPPLEMENTARY_REGEX s \<Longrightarrow> no_match SUPPLEMENTARY_REGEX (replace_global m rep s)"
  using assms
proof (induction m rep s rule: replace_global.induct)
  case (1 m rep)
  then show ?case by simp
next
  case (2 m rep c cs)
  have nm_app: "no_match SUPPLEMENTARY_REGEX (rep @ y)" if "no_match SUPPLEMENTARY_REGEX y" for y
  proof (cases rep rule: rev_cases)
    case Nil
    with that show ?thesis by simp
  next
    case (snoc xs l)
    with "2.prems"(5) have l: "l \<noteq> 0xDB40" by simp
    from "2.prems"(4) snoc have nx: "no_match SUPPLEMENTARY_REGEX (xs @ [l])" by simp
    have "no_match SUPPLEMENTARY_REGEX (zs @ l # y)" if "no_match SUPPLEMENTARY_REGEX (zs @ [l])" for zs
      using that
    proof (induction zs)
      case Nil
      with l \<open>no_match SUPPLEMENTARY_REGEX y\<close> show ?case by (simp add: SUPPLEMENTARY_REGEX_head)
    next
      case (Cons z zs)
      then show ?case
        by (cases zs) (auto simp: SUPPLEMENTARY_REGEX_head head_ok_def)
    qed
    from this [OF nx] snoc show ?thesis by simp
  qed
  show ?case
  proof (cases "m (c # cs)")
    case (Some n)
    from "2.prems"(3) [OF Some] have n: "1 \<le> n" .
    have "no_match SUPPLEMENTARY_REGEX (drop (n - 1) cs)"
      using no_match_drop [of SUPPLEMENTARY_REGEX cs "n - 1"] "2.prems"(1) by simp
    then have "no_match SUPPLEMENTARY_REGEX (replace_global m rep (drop (n - 1) cs))"
      by (rule "2.IH"(2) [OF Some]) (fact "2.prems")+
    from nm_app [OF this] Some show ?thesis by simp
  next
    case None
    from "2.prems"(1) have a: "SUPPLEMENTARY_REGEX (c # cs) = None" "no_match SUPPLEMENTARY_REGEX cs"
      by simp_all
    from a(2) have ih: "no_match SUPPLEMENTARY_REGEX (replace_global m rep cs)"
      by (rule "2.IH"(1) [OF None]) (fact "2.prems")+
    from a(1) "2.prems"(2) have "SUPPLEMENTARY_REGEX (c # replace_global m rep cs) = None"
      unfolding SUPPLEMENTARY_REGEX_head by blast
    with ih None show ?thesis by simp
  qed
qed

lemma match_trailing_pos: "match_trailing s = Some n \<Longrightarrow> 1 \<le> n"
  using match_trailing_SomeD by blast

lemma match_spaces_pos: "match_spaces s = Some n \<Longrightarrow> 1 \<le> n"
  using match_spaces_SomeD [of s n] by simp

lemma tidy_hidden_free: "hidden_free s \<Longrightarrow> hidden_free (tidy s)"
proof -
  assume a: "hidden_free s"
  from a have 0: "no_match SUPPLEMENTARY_REGEX s" by (simp add: hidden_free_def)
  have 1: "no_match SUPPLEMENTARY_REGEX (replace_global match_trailing [] s)"
    using strip_trailing_head_ok match_trailing_pos _ _ 0
    by (rule no_match_supplementary_replace) simp_all
  have 2: "no_match SUPPLEMENTARY_REGEX (tidy s)"
    unfolding tidy_def
    using collapse_head_ok match_spaces_pos _ _ 1
    by (rule no_match_supplementary_replace) (simp_all add: SUPPLEMENTARY_REGEX_def)
  have "set (tidy s) \<subseteq> insert 0x0020 (set s)"
    unfolding tidy_def by (rule tidy_set)
  with a space_not_invisible have "list_all (\<lambda>c. \<not> INVISIBLE_REGEX c) (tidy s)"
    by (auto simp: hidden_free_def list_all_iff)
  with 2 show ?thesis by (simp add: hidden_free_def)
qed

lemma fold_unit_indep: "fold_unit r c = fold_unit r' c"
  by (simp add: fold_unit_def fix_homoglyph_def isExpectedChar_def)

lemma fold_unit_ascii: "0x0020 \<le> v \<Longrightarrow> v \<le> 0x007E \<Longrightarrow> fold_unit r v = v"
proof -
  assume v: "0x0020 \<le> v" "v \<le> 0x007E"
  have "lookup_homoglyph v = None"
  proof (cases "lookup_homoglyph v")
    case (Some w)
    from lookup_homoglyph_SomeD [OF Some] v show ?thesis
      by (auto simp: word_le_nat_alt)
  qed simp
  then show ?thesis by (simp add: fold_unit_def HOMOGLYPH_REGEX_iff)
qed

lemma fold_unit_idem: "fold_unit r' (fold_unit r c) = fold_unit r c"
  using fold_unit_cases [of r c] fold_unit_indep [of r' c r] fold_unit_ascii [of "fold_unit r c" r']
  by auto

lemma STRIPPABLE_not_ascii: "\<forall>c \<in> set STRIPPABLE_CHARS. 0x007E < c"
  by (simp add: STRIPPABLE_CHARS_def INVISIBLE_CHARS_def)

lemma ascii_not_invisible: "0x0020 \<le> v \<Longrightarrow> v \<le> 0x007E \<Longrightarrow> \<not> INVISIBLE_REGEX v"
  using STRIPPABLE_not_ascii unfolding INVISIBLE_REGEX_def
  by (auto simp: word_le_nat_alt word_less_nat_alt)

lemma ascii_not_special:
  "0x0020 \<le> v \<Longrightarrow> v \<le> 0x007E \<Longrightarrow> v \<noteq> 0xDB40 \<and> \<not> in_supplementary_range (v :: u16)"
  unfolding in_supplementary_range_def by (auto simp: word_le_nat_alt)

lemma fold_unit_special:
  "fold_unit r c = 0xDB40 \<Longrightarrow> c = 0xDB40"
  "in_supplementary_range (fold_unit r c) \<Longrightarrow> in_supplementary_range c"
  using fold_unit_cases [of r c] ascii_not_special [of "fold_unit r c"] by auto

lemma fold_head_ok: "head_ok s \<Longrightarrow> head_ok (map (fold_unit r) s)"
  by (cases s) (auto simp: head_ok_def dest: fold_unit_special)

lemma fold_no_match:
  "no_match SUPPLEMENTARY_REGEX s \<Longrightarrow> no_match SUPPLEMENTARY_REGEX (map (fold_unit r) s)"
proof (induction s)
  case Nil
  then show ?case by simp
next
  case (Cons c s)
  then have "c \<noteq> 0xDB40 \<or> head_ok s" by (simp add: SUPPLEMENTARY_REGEX_head)
  then have "fold_unit r c \<noteq> 0xDB40 \<or> head_ok (map (fold_unit r) s)"
    using fold_unit_special(1) fold_head_ok by blast
  with Cons show ?case by (simp add: SUPPLEMENTARY_REGEX_head)
qed

lemma fold_hidden_free: "hidden_free s \<Longrightarrow> hidden_free (map (fold_unit r) s)"
proof -
  assume a: "hidden_free s"
  have "\<not> INVISIBLE_REGEX (fold_unit r c)" if "\<not> INVISIBLE_REGEX c" for c
    using that fold_unit_cases [of r c] ascii_not_invisible [of "fold_unit r c"] by auto
  with a have "list_all (\<lambda>c. \<not> INVISIBLE_REGEX c) (map (fold_unit r) s)"
    by (auto simp: hidden_free_def list_all_iff)
  with a fold_no_match show ?thesis by (simp add: hidden_free_def)
qed

lemma stripped_hidden_free: "well_formed str \<Longrightarrow> hidden_free (stripped str options)"
proof -
  assume a: "well_formed str"
  let ?h = "if truthy (stripHTML options) then strip_html str else str"
  from a have "paired False ?h" by (simp add: well_formed_def paired_strip_html)
  then have "paired False (filter (\<lambda>c. \<not> INVISIBLE_REGEX c) ?h)"
    by (rule paired_filter [rotated]) (simp add: INVISIBLE_REGEX_not_surrogate)
  then have "no_match SUPPLEMENTARY_REGEX (stripped str options)"
    unfolding stripped_def by (rule no_match_strip_supplementary)
  with stripped_no_invisible [of str options] show ?thesis
    by (simp add: hidden_free_def list_all_iff)
qed

lemma stripped_fixed:
  assumes "hidden_free r" and "\<not> truthy (stripHTML options)"
  shows "stripped r options = r"
proof -
  from assms(1) have "filter (\<lambda>c. \<not> INVISIBLE_REGEX c) r = r"
    by (simp add: hidden_free_def list_all_iff)
  with assms show ?thesis
    by (simp add: stripped_def hidden_free_def replace_global_no_match)
qed

lemma finish_tidy:
  "finish r options = tidy (if truthy (fixHomoglyphs options) then map (fold_unit r) r else r)"
  by (simp add: finish_fold_unit tidy_def)

lemma map_fold_tidy_fold:
  "map (fold_unit r') (tidy (map (fold_unit r) s)) = tidy (map (fold_unit r) s)"
proof (rule map_idI)
  fix u assume "u \<in> set (tidy (map (fold_unit r) s))"
  with tidy_set [of "map (fold_unit r) s"] have "u = 0x0020 \<or> u \<in> fold_unit r ` set s"
    by (auto simp: tidy_def)
  then show "fold_unit r' u = u"
    using fold_unit_idem fold_unit_ascii [of "0x0020" r'] by auto
qed

text \<open>
  Claim C1, amended. With \<^verbatim>\<open>stripHTML\<close> off and a text without unpaired surrogates,
  cleaning twice is cleaning once, for both values of \<^verbatim>\<open>fixHomoglyphs\<close> when
  \<^verbatim>\<open>normalize\<close> is \<^verbatim>\<open>false\<close>, and with \<^verbatim>\<open>fixHomoglyphs\<close> off when \<^verbatim>\<open>normalize\<close> is on.
  In the second case the runtime's NFC is assumed to introduce no strippable character
  into a text that has none, and to leave a normalized text normalized when its trailing
  white space is removed and its runs of spaces are collapsed.
\<close>

theorem clean_idempotent:
  assumes "\<not> truthy (stripHTML options)"
    and "well_formed str"
    and "not_false (normalize options) \<Longrightarrow>
           \<not> truthy (fixHomoglyphs options)
           \<and> (\<forall>s. hidden_free s \<longrightarrow> hidden_free (nfc s))
           \<and> (\<forall>s. nfc (tidy (nfc s)) = tidy (nfc s))"
  shows "clean nfc (clean nfc str options) options = clean nfc str options"
proof (cases "not_false (normalize options)")
  case True
  with assms(3) have nf: "\<not> truthy (fixHomoglyphs options)"
    and n2: "\<And>s. hidden_free s \<Longrightarrow> hidden_free (nfc s)"
    and n4: "\<And>s. nfc (tidy (nfc s)) = tidy (nfc s)" by auto
  let ?s1 = "stripped str options"
  have r: "clean nfc str options = tidy (nfc ?s1)"
    using True nf by (simp add: clean_stages finish_tidy)
  have "hidden_free (tidy (nfc ?s1))"
    using assms(2) by (intro tidy_hidden_free n2 stripped_hidden_free)
  then have "stripped (tidy (nfc ?s1)) options = tidy (nfc ?s1)"
    using assms(1) by (rule stripped_fixed)
  then have "clean nfc (tidy (nfc ?s1)) options = tidy (nfc (tidy (nfc ?s1)))"
    using True nf by (simp add: clean_stages finish_tidy)
  also have "\<dots> = tidy (nfc ?s1)" by (simp add: n4 tidy_idem)
  finally show ?thesis unfolding r .
next
  case False
  let ?s1 = "stripped str options"
  have h1: "hidden_free ?s1" using assms(2) by (rule stripped_hidden_free)
  show ?thesis
  proof (cases "truthy (fixHomoglyphs options)")
    case hom: True
    let ?r = "tidy (map (fold_unit ?s1) ?s1)"
    have r: "clean nfc str options = ?r"
      using False hom by (simp add: clean_stages finish_tidy)
    have "hidden_free ?r" using h1 by (intro tidy_hidden_free fold_hidden_free)
    then have "stripped ?r options = ?r" using assms(1) by (rule stripped_fixed)
    then have "clean nfc ?r options = tidy (map (fold_unit ?r) ?r)"
      using False hom by (simp add: clean_stages finish_tidy)
    also have "\<dots> = tidy ?r" by (simp only: map_fold_tidy_fold)
    also have "\<dots> = ?r" by (rule tidy_idem)
    finally show ?thesis unfolding r .
  next
    case nohom: False
    let ?r = "tidy ?s1"
    have r: "clean nfc str options = ?r"
      using False nohom by (simp add: clean_stages finish_tidy)
    have "hidden_free ?r" using h1 by (rule tidy_hidden_free)
    then have "stripped ?r options = ?r" using assms(1) by (rule stripped_fixed)
    then have "clean nfc ?r options = tidy ?r"
      using False nohom by (simp add: clean_stages finish_tidy)
    also have "\<dots> = ?r" by (rule tidy_idem)
    finally show ?thesis unfolding r .
  qed
qed

lemma nfc_ascii_qa_Cons:
  "nfc_ascii_qa (c # s) = (if c = 0x0958 then [0x0915, 0x093C] else [c]) @ nfc_ascii_qa s"
  by (simp add: nfc_ascii_qa_def)

lemma nfc_ascii_qa_head_ok: "head_ok s \<Longrightarrow> head_ok (nfc_ascii_qa s)"
proof (cases s)
  case Nil
  then show "head_ok s \<Longrightarrow> ?thesis" by (simp add: nfc_ascii_qa_def)
next
  case (Cons b t)
  have "\<not> in_supplementary_range 0x0915"
    by (simp add: in_supplementary_range_def)
  then show "head_ok s \<Longrightarrow> ?thesis" unfolding Cons
    by (simp add: nfc_ascii_qa_Cons head_ok_def)
qed

lemma nfc_ascii_qa_no_match:
  "no_match SUPPLEMENTARY_REGEX s \<Longrightarrow> no_match SUPPLEMENTARY_REGEX (nfc_ascii_qa s)"
proof (induction s)
  case Nil
  then show ?case by (simp add: nfc_ascii_qa_def)
next
  case (Cons c s)
  then have ih: "no_match SUPPLEMENTARY_REGEX (nfc_ascii_qa s)"
    and h: "c \<noteq> 0xDB40 \<or> head_ok s" by (simp_all add: SUPPLEMENTARY_REGEX_head)
  from h have "c \<noteq> 0xDB40 \<or> head_ok (nfc_ascii_qa s)"
    using nfc_ascii_qa_head_ok by blast
  with ih show ?case
    by (simp add: nfc_ascii_qa_Cons SUPPLEMENTARY_REGEX_head)
qed

lemma nfc_ascii_qa_hidden_free: "hidden_free s \<Longrightarrow> hidden_free (nfc_ascii_qa s)"
  using nfc_ascii_qa_no_invisible [of s] nfc_ascii_qa_no_match [of s]
  by (simp add: hidden_free_def list_all_iff)

lemma nfc_ascii_qa_fixed: "0x0958 \<notin> set s \<Longrightarrow> nfc_ascii_qa s = s"
  by (induction s) (auto simp: nfc_ascii_qa_def)

lemma nfc_ascii_qa_no_qa: "0x0958 \<notin> set (nfc_ascii_qa s)"
  by (induction s) (auto simp: nfc_ascii_qa_def)

lemma nfc_ascii_qa_tidy: "nfc_ascii_qa (tidy (nfc_ascii_qa s)) = tidy (nfc_ascii_qa s)"
proof (rule nfc_ascii_qa_fixed)
  have "set (tidy (nfc_ascii_qa s)) \<subseteq> insert 0x0020 (set (nfc_ascii_qa s))"
    unfolding tidy_def by (rule tidy_set)
  with nfc_ascii_qa_no_qa [of s] show "0x0958 \<notin> set (tidy (nfc_ascii_qa s))" by auto
qed

theorem clean_idempotent_witness:
  "\<not> truthy (stripHTML default_options)
   \<and> well_formed [0x61, 0x20, 0x20, 0x200B, 0x0958, 0x20, 0x0A, 0xDB40, 0xDC01, 0x62, 0x20]
   \<and> \<not> truthy (fixHomoglyphs default_options)
   \<and> (\<forall>s. if hidden_free s then hidden_free (nfc_ascii_qa s) else True)
   \<and> (\<forall>s. nfc_ascii_qa (tidy (nfc_ascii_qa s)) = tidy (nfc_ascii_qa s))
   \<and> clean nfc_ascii_qa
        (clean nfc_ascii_qa [0x61, 0x20, 0x20, 0x200B, 0x0958, 0x20, 0x0A, 0xDB40, 0xDC01, 0x62, 0x20]
           default_options) default_options
      = clean nfc_ascii_qa [0x61, 0x20, 0x20, 0x200B, 0x0958, 0x20, 0x0A, 0xDB40, 0xDC01, 0x62, 0x20]
          default_options"
proof -
  let ?s = "[0x61, 0x20, 0x20, 0x200B, 0x0958, 0x20, 0x0A, 0xDB40, 0xDC01, 0x62, 0x20] :: jstring"
  have a: "\<not> truthy (stripHTML default_options)" "\<not> truthy (fixHomoglyphs default_options)"
    by (simp_all add: default_options_def truthy_def)
  have b: "well_formed ?s"
    by (simp add: well_formed_def isHighSurrogate_def isLowSurrogate_def)
  have c: "\<forall>s. hidden_free s \<longrightarrow> hidden_free (nfc_ascii_qa s)"
    using nfc_ascii_qa_hidden_free by blast
  have d: "\<forall>s. nfc_ascii_qa (tidy (nfc_ascii_qa s)) = tidy (nfc_ascii_qa s)"
    using nfc_ascii_qa_tidy by blast
  from clean_idempotent [of default_options ?s nfc_ascii_qa, OF a(1) b] a(2) c d
  have "clean nfc_ascii_qa (clean nfc_ascii_qa ?s default_options) default_options
      = clean nfc_ascii_qa ?s default_options" by blast
  with a b c d show ?thesis by simp
qed

text \<open>
  Claim C1 as stated fails with \<^verbatim>\<open>stripHTML\<close> on: the entities of \<^verbatim>\<open>&lt;b&gt;\<close> are
  decoded after the tags are removed, so the first cleaning returns \<^verbatim>\<open><b>\<close>, which
  the second removes as a tag.
\<close>

theorem clean_not_idempotent_counterexample:
  "\<forall>nfc. clean nfc (clean nfc (utf16 ''&lt;b&gt;'')
              \<lparr>normalize = Some False, fixHomoglyphs = None, stripSpaces = None, stripHTML = Some True\<rparr>)
            \<lparr>normalize = Some False, fixHomoglyphs = None, stripSpaces = None, stripHTML = Some True\<rparr>
      \<noteq> clean nfc (utf16 ''&lt;b&gt;'')
            \<lparr>normalize = Some False, fixHomoglyphs = None, stripSpaces = None, stripHTML = Some True\<rparr>"
proof
  fix nfc
  let ?o = "\<lparr>normalize = Some False, fixHomoglyphs = None, stripSpaces = None, stripHTML = Some True\<rparr>"
  have 1: "clean nfc (utf16 ''&lt;b&gt;'') ?o = [0x3C, 0x62, 0x3E]"
    by (simp add: eval_defs strip_html_def match_tag_def match_literal_ci_def toUpperASCII_def utf16_def)
  have 2: "clean nfc [0x3C, 0x62, 0x3E] ?o = []"
    by (simp add: eval_defs strip_html_def match_tag_def match_literal_ci_def toUpperASCII_def utf16_def)
  show "clean nfc (clean nfc (utf16 ''&lt;b&gt;'') ?o) ?o \<noteq> clean nfc (utf16 ''&lt;b&gt;'') ?o"
    unfolding 1 2 by simp
qed

text \<open>
  Why the amended claim asks for a text without unpaired surrogates: removing the pair
  in the middle of DB40 DB40 DC01 DC01 joins the two lone halves into a new pair, which
  only a second cleaning removes.
\<close>

lemma clean_joins_lone_surrogates:
  "clean nfc [0xDB40, 0xDB40, 0xDC01, 0xDC01]
     \<lparr>normalize = Some False, fixHomoglyphs = None, stripSpaces = None, stripHTML = None\<rparr>
     = [0xDB40, 0xDC01]
   \<and> clean nfc [0xDB40, 0xDC01]
     \<lparr>normalize = Some False, fixHomoglyphs = None, stripSpaces = None, stripHTML = None\<rparr> = []"
  by (simp add: eval_defs)

subsection \<open>Every operation returns\<close>

text \<open>
  Each loop over the indices of a string or an array is the loop over its elements
  defined before, and no step of it throws.
\<close>

declare detect_for.simps [simp del] homoglyph_for.simps [simp del] reveal_for.simps [simp del]
  inject_for.simps [simp del]

lemma at_index_drop:
  assumes "i < length xs"
  shows "at_index xs i = Some (xs ! i)" and "drop i xs = xs ! i # drop (Suc i) xs"
  using assms by (simp_all add: at_index_def Cons_nth_drop_Suc)

lemma detect_for_loop:
  "i \<le> length str \<Longrightarrow> detect_for inc str i r = detect_loop inc (drop i str) i r"
proof (induction "length str - i" arbitrary: i r inc)
  case 0
  then show ?case by (simp add: detect_for.simps [of inc str i r])
next
  case (Suc n)
  then have less: "i < length str" and next_le: "Suc i \<le> length str"
    and len: "n = length str - Suc i" by simp_all
  note step = Suc.hyps(1) [OF len next_le]
  show ?case
    by (simp add: detect_for.simps [of inc str i r] at_index_drop [OF less] less step
             split: option.split sum.split)
qed

lemma options_of_object:
  "arg \<noteq> NullValue \<Longrightarrow> \<exists>options. options_of dflt arg = Inr options"
  by (cases arg) (simp_all add: options_of_def)

lemma detect_op_detect:
  "options_of \<lparr>includeFormatting = None\<rparr> arg = Inr options \<Longrightarrow> detect_op str arg = detect str options"
  by (simp add: detect_op_def detect_def detect_for_loop)

lemma homoglyph_for_loop:
  "i \<le> length str \<Longrightarrow> homoglyph_for str i r = homoglyph_loop str (drop i str) i r"
proof (induction "length str - i" arbitrary: i r)
  case 0
  then show ?case by (simp add: homoglyph_for.simps [of str i r])
next
  case (Suc n)
  then have less: "i < length str" and next_le: "Suc i \<le> length str"
    and len: "n = length str - Suc i" by simp_all
  note step = Suc.hyps(1) [OF len next_le]
  show ?case
    by (simp add: homoglyph_for.simps [of str i r] at_index_drop [OF less] less step member_of_def Let_def
             split: option.split sum.split)
qed

lemma reveal_for_loop:
  "i \<le> length str \<Longrightarrow>
   reveal_for inc str i parts buf = Inr (reveal_loop inc (drop i str) parts buf)"
proof (induction "length str - i" arbitrary: i parts buf)
  case 0
  then show ?case by (simp add: reveal_for.simps [of inc str i parts buf])
next
  case (Suc n)
  then have less: "i < length str" and next_le: "Suc i \<le> length str"
    and len: "n = length str - Suc i" by simp_all
  note step = Suc.hyps(1) [OF len next_le]
  show ?case
    by (simp add: reveal_for.simps [of inc str i parts buf] at_index_drop [OF less] less step
          member_of_def Let_def)
qed

lemma inject_for_loop:
  "i \<le> length words \<Longrightarrow>
   inject_for rand cs words i st = Inr (inject_loop rand cs (drop i words) st)"
proof (induction "length words - i" arbitrary: i st)
  case 0
  then show ?case by (cases st) (simp add: inject_for.simps)
next
  case (Suc n)
  then have less: "i < length words" and next_le: "Suc i \<le> length words"
    and len: "n = length words - Suc i" by simp_all
  note step = Suc.hyps(1) [OF len next_le]
  obtain result cnt k where st: "st = (result, cnt, k)" by (cases st)
  have more: "(i < length words - Suc 0) = (\<not> length words \<le> Suc i)" by arith
  show ?case unfolding st
    by (simp add: inject_for.simps [of rand cs words i result cnt k] at_index_drop [OF less] less step
          member_of_def Let_def more split: prod.split)
qed

lemma detectHomoglyphs_op_detectHomoglyphs: "detectHomoglyphs_op str = detectHomoglyphs str"
  by (simp add: detectHomoglyphs_op_def detectHomoglyphs_def homoglyph_for_loop)

lemma revealHTML_op_revealHTML:
  "options_of \<lparr>includeFormatting = None\<rparr> arg = Inr options \<Longrightarrow>
   revealHTML_op str arg = Inr (revealHTML str options)"
  by (simp add: revealHTML_op_def revealHTML_def reveal_for_loop Let_def split: prod.split)

lemma inject_op_inject:
  "options_of \<lparr>zwsp = None, zwnj = None, bom = None, invisSep = None\<rparr> arg = Inr types \<Longrightarrow>
   inject_op rand str arg = Inr (inject rand str types)"
  by (simp add: inject_op_def inject_def inject_for_loop Let_def split: prod.split)

lemma js_normalize_NFC: "js_normalize unorm ''NFC'' s = Inr (unorm NFC s)"
  by (simp add: js_normalize_def form_of_def)

lemma clean_op_clean:
  "options_of default_options arg = Inr options \<Longrightarrow>
   clean_op unorm str arg = Inr (clean (unorm NFC) str options)"
  by (simp add: clean_op_def clean_def js_normalize_NFC Let_def)

lemma count_issue_result:
  "count_issue (match_result n) kind about r =
     Inr (if 0 < n
          then \<lparr>wtotal = wtotal r + n,
                issues = issues r @ [\<lparr>itype = kind, icount = n, description = about\<rparr>]\<rparr>
          else r)"
  by (simp add: count_issue_def match_result_def member_of_def)

lemma getCharInfo_op_getCharInfo: "getCharInfo_op ch = Inr (getCharInfo ch)"
  by (simp add: getCharInfo_op_def getCharInfo_def split: list.split option.split)

lemma new_RegExp_escaped: "new_RegExp (escapeRegExp [ch]) = Inr ch"
  by (simp add: new_RegExp_def escapeRegExp_def)

lemma special_space_for_loop:
  "special_space_for cs str r = Inr (special_space_loop cs str r)"
proof (induction cs arbitrary: r)
  case Nil
  show ?case by simp
next
  case (Cons p cs)
  obtain ch nfo where p: "p = (ch, nfo)" by (cases p)
  show ?case unfolding p
    by (simp add: new_RegExp_escaped match_result_def member_of_def Let_def Cons.IH)
qed

lemma detectWhitespaceAnomalies_op_result:
  "detectWhitespaceAnomalies_op str = Inr (detectWhitespaceAnomalies str)"
  by (simp add: detectWhitespaceAnomalies_op_def detectWhitespaceAnomalies_def count_issue_result
        special_space_for_loop Let_def)

text \<open>
  The options argument \<^verbatim>\<open>null\<close> is not an options object: the default parameter
  leaves it in place, and the first read of a key throws.
\<close>

lemma null_options_throw:
  "call unorm rand (Detect str NullValue) = Inl TypeError"
  "call unorm rand (Clean str NullValue) = Inl TypeError"
  "call unorm rand (RevealHTML str NullValue) = Inl TypeError"
  "call unorm rand (Inject str NullValue) = Inl TypeError"
  by (simp_all add: detect_op_def clean_op_def revealHTML_op_def inject_op_def options_of_def)

text \<open>
  Claim C7. Every public operation returns a result and does not throw, for every
  string (the empty one, one with unpaired surrogates, one of hidden characters only:
  the string is arbitrary) and every options argument that is an object or was left
  out. Each step that can throw is reached only where it succeeds: every element read
  by index lies below the length, \<^verbatim>\<open>chars.get(ch)\<close> finds the entry stored just before,
  the length of a match result is read only behind the test that it is not \<^verbatim>\<open>null\<close>,
  the pattern built for a special space parses because of the escaping, and the form
  passed to \<^verbatim>\<open>normalize\<close> is NFC.
\<close>

theorem operations_total:
  "options_object req \<Longrightarrow> \<exists>r. call unorm rand req = Inr r"
proof (cases req)
  case (Detect str arg)
  moreover assume "options_object req"
  ultimately obtain options where "options_of \<lparr>includeFormatting = None\<rparr> arg = Inr options"
    using options_of_object [of arg] by auto
  then have "detect_op str arg = detect str options" by (rule detect_op_detect)
  moreover from detect_result [of str options] obtain r where "detect str options = Inr r" by blast
  ultimately show ?thesis using Detect by simp
next
  case (DetectHomoglyphs str)
  from homoglyph_loop_inv [of str str 0 "\<lparr>htotal = 0, hchars = []\<rparr>"]
  obtain r where "detectHomoglyphs str = Inr r" by (auto simp: detectHomoglyphs_def)
  with DetectHomoglyphs show ?thesis by (simp add: detectHomoglyphs_op_detectHomoglyphs)
next
  case (DetectWhitespaceAnomalies str)
  then show ?thesis by (simp add: detectWhitespaceAnomalies_op_result)
next
  case (Clean str arg)
  moreover assume "options_object req"
  ultimately obtain options where "options_of default_options arg = Inr options"
    using options_of_object [of arg] by auto
  then have "clean_op unorm str arg = Inr (clean (unorm NFC) str options)" by (rule clean_op_clean)
  with Clean show ?thesis by simp
next
  case (RevealHTML str arg)
  moreover assume "options_object req"
  ultimately obtain options where "options_of \<lparr>includeFormatting = None\<rparr> arg = Inr options"
    using options_of_object [of arg] by auto
  then have "revealHTML_op str arg = Inr (revealHTML str options)" by (rule revealHTML_op_revealHTML)
  with RevealHTML show ?thesis by simp
next
  case (Inject str arg)
  moreover assume "options_object req"
  ultimately obtain types
    where "options_of \<lparr>zwsp = None, zwnj = None, bom = None, invisSep = None\<rparr> arg = Inr types"
    using options_of_object [of arg] by auto
  then have "inject_op rand str arg = Inr (inject rand str types)" by (rule inject_op_inject)
  with Inject show ?thesis by simp
next
  case (GetCharInfo ch)
  then show ?thesis by (simp add: getCharInfo_op_getCharInfo)
qed

theorem operations_total_witness:
  "options_object (Clean [0xD800, 0x200B, 0x0041] Omitted)
   \<and> (\<exists>r. call (\<lambda>form. nfc_ascii_qa) (\<lambda>k. 0) (Clean [0xD800, 0x200B, 0x0041] Omitted) = Inr r)"
  using operations_total [of "Clean [0xD800, 0x200B, 0x0041] Omitted" "\<lambda>form. nfc_ascii_qa" "\<lambda>k. 0"]
  by simp

end
